theory Spec2Isabelle
  imports Main
begin

section \<open>Parsed XML documents\<close>

text \<open>
  Both endpoints answer with XML that \<^verbatim>\<open>BeautifulSoup(response.content, "xml")\<close>
  turns into a tree. A node is a tag with its children in document order, or a piece
  of text. The parser itself is outside the program; the tree is where the model starts.
\<close>

datatype xml = Tag string "xml list" | NavigableString string

text \<open>The descendants of a node in document order, the node itself left out.\<close>

fun descendants :: "xml \<Rightarrow> xml list" where
  "descendants (NavigableString s) = []"
| "descendants (Tag n cs) = concat (map (\<lambda>c. c # descendants c) cs)"

fun named :: "string \<Rightarrow> xml \<Rightarrow> bool" where
  "named n (Tag m cs) = (n = m)"
| "named n (NavigableString s) = False"

text \<open>\<^verbatim>\<open>tag.find_all(name)\<close>: every descendant tag of that name, in document order.\<close>

definition find_all :: "string \<Rightarrow> xml \<Rightarrow> xml list" where
  "find_all n t = filter (named n) (descendants t)"

text \<open>\<^verbatim>\<open>tag.find(name)\<close>: the first such descendant, or \<^verbatim>\<open>None\<close>.\<close>

definition find_tag :: "string \<Rightarrow> xml \<Rightarrow> xml option" where
  "find_tag n t = (case find_all n t of [] \<Rightarrow> None | x # _ \<Rightarrow> Some x)"

text \<open>\<^verbatim>\<open>tag.text\<close>: all text below the node, concatenated.\<close>

fun get_text :: "xml \<Rightarrow> string" where
  "get_text (NavigableString s) = s"
| "get_text (Tag n cs) = concat (map get_text cs)"

section \<open>Exceptions and attribute access on an optional tag\<close>

datatype error = RequestException | AttributeError | ValueError

text \<open>
  The result of \<^verbatim>\<open>find\<close> is a tag or \<^verbatim>\<open>None\<close>. A tag is always true in a condition
  (\<^verbatim>\<open>Tag.__bool__\<close> returns \<^verbatim>\<open>True\<close>, also for a tag with no contents); \<^verbatim>\<open>None\<close> is false.
  Reading \<^verbatim>\<open>.text\<close> or calling \<^verbatim>\<open>.find\<close> on \<^verbatim>\<open>None\<close> raises \<^verbatim>\<open>AttributeError\<close>.
\<close>

fun truthy :: "xml option \<Rightarrow> bool" where
  "truthy None = False"
| "truthy (Some t) = True"

fun text_of :: "xml option \<Rightarrow> error + string" where
  "text_of None = Inl AttributeError"
| "text_of (Some t) = Inr (get_text t)"

fun find_of :: "string \<Rightarrow> xml option \<Rightarrow> error + xml option" where
  "find_of n None = Inl AttributeError"
| "find_of n (Some t) = Inr (find_tag n t)"

section \<open>Requests\<close>

text \<open>
  The \<^verbatim>\<open>params\<close> dictionary of a request, in insertion order. \<^verbatim>\<open>requests.get\<close> is the
  environment: a function from the URL and the parameters to a parsed response, or to
  the exception it raises. An HTTP error status does not raise (the program never calls
  \<^verbatim>\<open>raise_for_status\<close>): its body is parsed like any other. Within one call the
  requests differ in their offset, so a function of the parameters can stand for any
  sequence of answers.
\<close>

datatype pyval = PyStr string | PyInt int

type_synonym params = "(string \<times> pyval) list"

type_synonym http = "string \<Rightarrow> params \<Rightarrow> error + xml"

section \<open>get_total_records\<close>

definition esearch_url :: string where
  "esearch_url = ''https://eutils.ncbi.nlm.nih.gov/entrez/eutils/esearch.fcgi''"

text \<open>\<^verbatim>\<open>if end_date:\<close> holds for a string that is neither \<^verbatim>\<open>None\<close> nor empty.\<close>

definition esearch_params :: "string \<Rightarrow> string \<Rightarrow> string \<Rightarrow> string option \<Rightarrow> params" where
  "esearch_params api_key keyword start_date end_date =
     [(''db'', PyStr ''pubmed''), (''retmode'', PyStr ''xml''), (''term'', PyStr keyword),
      (''mindate'', PyStr start_date), (''retmax'', PyInt 0), (''api_key'', PyStr api_key),
      (''usehistory'', PyStr ''y'')]
     @ (case end_date of
          None \<Rightarrow> []
        | Some d \<Rightarrow> if d \<noteq> [] then [(''maxdate'', PyStr d)] else [])"

text \<open>
  The function returns the requests it has sent together with its result. Python's
  built-in \<^verbatim>\<open>int\<close> on a string is the parameter \<open>py_int\<close>; \<open>None\<close> is its \<^verbatim>\<open>ValueError\<close>.
  The three fields are read in the order Count, WebEnv, QueryKey, and the first failure
  ends the call.
\<close>

definition get_total_records ::
  "(string \<Rightarrow> int option) \<Rightarrow> http \<Rightarrow> string \<Rightarrow> string \<Rightarrow> string \<Rightarrow> string option
     \<Rightarrow> params list \<times> (error + int \<times> string \<times> string)" where
  "get_total_records py_int requests_get api_key keyword start_date end_date =
     (let params = esearch_params api_key keyword start_date end_date in
      ([params],
       case requests_get esearch_url params of
         Inl e \<Rightarrow> Inl e
       | Inr soup \<Rightarrow>
          (case text_of (find_tag ''Count'' soup) of
             Inl e \<Rightarrow> Inl e
           | Inr count_text \<Rightarrow>
              (case py_int count_text of
                 None \<Rightarrow> Inl ValueError
               | Some count \<Rightarrow>
                  (case text_of (find_tag ''WebEnv'' soup) of
                     Inl e \<Rightarrow> Inl e
                   | Inr web_env \<Rightarrow>
                      (case text_of (find_tag ''QueryKey'' soup) of
                         Inl e \<Rightarrow> Inl e
                       | Inr query_key \<Rightarrow> Inr (count, web_env, query_key)))))))"

section \<open>Field extraction\<close>

text \<open>
  \<^verbatim>\<open>x.find(n).text if x.find(n) else "N/A"\<close>: the condition is evaluated first, then
  one of the two branches.
\<close>

definition text_or_na :: "string \<Rightarrow> xml \<Rightarrow> error + string" where
  "text_or_na n x = (if truthy (find_tag n x) then text_of (find_tag n x) else Inr ''N/A'')"

text \<open>
  The year sits two levels down. \<^verbatim>\<open>a and b\<close> evaluates \<^verbatim>\<open>b\<close> only when \<^verbatim>\<open>a\<close> is true.
\<close>

definition year_of :: "xml \<Rightarrow> error + string" where
  "year_of article =
     (case (if truthy (find_tag ''PubDate'' article)
            then (case find_of ''Year'' (find_tag ''PubDate'' article) of
                    Inl e \<Rightarrow> Inl e
                  | Inr y \<Rightarrow> Inr (truthy y))
            else Inr False) of
        Inl e \<Rightarrow> Inl e
      | Inr True \<Rightarrow>
         (case find_of ''Year'' (find_tag ''PubDate'' article) of
            Inl e \<Rightarrow> Inl e
          | Inr y \<Rightarrow> text_of y)
      | Inr False \<Rightarrow> Inr ''N/A'')"

text \<open>The loop over the authors of one article (lines 78 to 83): one row is appended per author.\<close>

fun append_authors ::
  "string \<Rightarrow> string \<Rightarrow> string \<Rightarrow> xml list \<Rightarrow> string list list \<Rightarrow> error + string list list" where
  "append_authors pmid title year [] article_data = Inr article_data"
| "append_authors pmid title year (author # authors) article_data =
     (case text_or_na ''LastName'' author of
        Inl e \<Rightarrow> Inl e
      | Inr last_name \<Rightarrow>
     (case text_or_na ''ForeName'' author of
        Inl e \<Rightarrow> Inl e
      | Inr fore_name \<Rightarrow>
     (case text_or_na ''Initials'' author of
        Inl e \<Rightarrow> Inl e
      | Inr initials \<Rightarrow>
     (case text_or_na ''Affiliation'' author of
        Inl e \<Rightarrow> Inl e
      | Inr affiliation \<Rightarrow>
          append_authors pmid title year authors
            (article_data @ [[pmid, title, year, last_name, fore_name, initials, affiliation]])))))"

text \<open>Lines 73 to 83 for one article: the three article fields, then the author loop.\<close>

definition extract_article :: "xml \<Rightarrow> string list list \<Rightarrow> error + string list list" where
  "extract_article article article_data =
     (case text_or_na ''PMID'' article of
        Inl e \<Rightarrow> Inl e
      | Inr pmid \<Rightarrow>
     (case text_or_na ''ArticleTitle'' article of
        Inl e \<Rightarrow> Inl e
      | Inr title \<Rightarrow>
     (case year_of article of
        Inl e \<Rightarrow> Inl e
      | Inr year \<Rightarrow>
          append_authors pmid title year (find_all ''Author'' article) article_data)))"

section \<open>fetch_articles_in_batches\<close>

record fetch_args =
  api_key :: string
  web_env :: string
  query_key :: string
  total_records :: int
  record_limit :: "int option"
  batch_size :: int
  dry_run :: bool

text \<open>What the function prints, one constructor per \<^verbatim>\<open>print\<close> statement, with the number shown.\<close>

datatype message = Found_unique_articles int | Retrieving_up_to int | Dry_run_processed nat

text \<open>
  The mutable state of one call: the accumulated rows, the article counter, the position
  \<^verbatim>\<open>pbar.n\<close> of the progress bar, the requests sent so far and the lines printed so far.
  The pause \<^verbatim>\<open>time.sleep(0.1)\<close> changes none of them and is left out.
\<close>

record retrieval_state =
  article_data :: "string list list"
  record_count :: int
  pbar_n :: int
  requests :: "params list"
  stdout :: "message list"

definition efetch_url :: string where
  "efetch_url = ''https://eutils.ncbi.nlm.nih.gov/entrez/eutils/efetch.fcgi''"

definition efetch_params :: "fetch_args \<Rightarrow> int \<Rightarrow> int \<Rightarrow> params" where
  "efetch_params a retstart current_batch_size =
     [(''db'', PyStr ''pubmed''), (''retmode'', PyStr ''xml''), (''query_key'', PyStr (query_key a)),
      (''WebEnv'', PyStr (web_env a)), (''retstart'', PyInt retstart),
      (''retmax'', PyInt current_batch_size), (''api_key'', PyStr (api_key a))]"

text \<open>\<^verbatim>\<open>preview_limit = 10 if dry_run else None\<close>\<close>

definition preview_limit :: "fetch_args \<Rightarrow> int option" where
  "preview_limit a = (if dry_run a then Some 10 else None)"

text \<open>
  \<^verbatim>\<open>min(total_records, record_limit) if record_limit else total_records\<close>: the condition
  is false for \<^verbatim>\<open>None\<close> and for 0.
\<close>

definition total_to_retrieve :: "fetch_args \<Rightarrow> int" where
  "total_to_retrieve a =
     (case record_limit a of
        None \<Rightarrow> total_records a
      | Some l \<Rightarrow> if l \<noteq> 0 then min (total_records a) l else total_records a)"

definition pbar_total :: "fetch_args \<Rightarrow> int option" where
  "pbar_total a = (if dry_run a then preview_limit a else Some (total_to_retrieve a))"

text \<open>
  \<^verbatim>\<open>range(start, stop, step)\<close> as the list of its values. A zero step raises \<^verbatim>\<open>ValueError\<close>
  where the range is built; that case is handled by the caller.
\<close>

function range_up :: "int \<Rightarrow> int \<Rightarrow> int \<Rightarrow> int list" where
  "range_up i stop step = (if 0 < step \<and> i < stop then i # range_up (i + step) stop step else [])"
  by pat_completeness auto
termination
  by (relation "measure (\<lambda>(i, stop, step). nat (stop - i))") auto

function range_down :: "int \<Rightarrow> int \<Rightarrow> int \<Rightarrow> int list" where
  "range_down i stop step = (if step < 0 \<and> stop < i then i # range_down (i + step) stop step else [])"
  by pat_completeness auto
termination
  by (relation "measure (\<lambda>(i, stop, step). nat (i - stop))") auto

declare range_up.simps [simp del]
declare range_down.simps [simp del]

definition py_range :: "int \<Rightarrow> int \<Rightarrow> int \<Rightarrow> error + int list" where
  "py_range start stop step =
     (if step = 0 then Inl ValueError
      else if 0 < step then Inr (range_up start stop step)
      else Inr (range_down start stop step))"

text \<open>
  How the loop over the articles of one payload ends: by one of the two \<^verbatim>\<open>return\<close>
  statements inside it, by running out of articles, or by an exception.
\<close>

datatype loop_exit = Return retrieval_state | Exhausted retrieval_state | Raise error retrieval_state

text \<open>
  Lines 63 to 85. The preview check comes first and prints its line before it returns;
  under \<^verbatim>\<open>dry_run\<close> the limit it compares with is 10 (the \<open>None\<close> case of
  \<open>preview_limit\<close> is never compared).
\<close>

fun process_articles :: "fetch_args \<Rightarrow> xml list \<Rightarrow> retrieval_state \<Rightarrow> loop_exit" where
  "process_articles a [] s = Exhausted s"
| "process_articles a (article # articles) s =
     (if dry_run a \<and> (case preview_limit a of
                         Some c \<Rightarrow> c \<le> int (length (article_data s))
                       | None \<Rightarrow> False)
      then Return (s\<lparr>stdout := stdout s @ [Dry_run_processed (length (article_data s))]\<rparr>)
      else if (case record_limit a of Some l \<Rightarrow> l \<le> record_count s | None \<Rightarrow> False)
      then Return s
      else (case extract_article article (article_data s) of
              Inl e \<Rightarrow> Raise e s
            | Inr rows \<Rightarrow>
                process_articles a articles
                  (s\<lparr>article_data := rows, record_count := record_count s + 1\<rparr>)))"

text \<open>How the call ends: it raises, or it returns \<^verbatim>\<open>article_data\<close>.\<close>

datatype outcome = Raised error retrieval_state | Returned retrieval_state

fun final_state :: "outcome \<Rightarrow> retrieval_state" where
  "final_state (Raised e s) = s"
| "final_state (Returned s) = s"

fun returned_rows :: "outcome \<Rightarrow> string list list option" where
  "returned_rows (Raised e s) = None"
| "returned_rows (Returned s) = Some (article_data s)"

text \<open>
  Lines 46 to 90, the loop over the window offsets. Each window sends one request sized
  from the counter, processes the payload, and then moves the progress bar by the size
  it asked for.
\<close>

fun batches :: "fetch_args \<Rightarrow> http \<Rightarrow> int list \<Rightarrow> retrieval_state \<Rightarrow> outcome" where
  "batches a requests_get [] s = Returned s"
| "batches a requests_get (retstart # rest) s =
     (let current_batch_size = min (batch_size a) (total_to_retrieve a - record_count s);
          params = efetch_params a retstart current_batch_size;
          s1 = s\<lparr>requests := requests s @ [params]\<rparr>
      in case requests_get efetch_url params of
           Inl e \<Rightarrow> Raised e s1
         | Inr soup \<Rightarrow>
            (case process_articles a (find_all ''PubmedArticle'' soup) s1 of
               Raise e s2 \<Rightarrow> Raised e s2
             | Return s2 \<Rightarrow> Returned s2
             | Exhausted s2 \<Rightarrow>
                 batches a requests_get rest (s2\<lparr>pbar_n := pbar_n s2 + current_batch_size\<rparr>)))"

text \<open>\<^verbatim>\<open>if record_limit:\<close> prints its line for a limit that is neither \<^verbatim>\<open>None\<close> nor 0.\<close>

definition initial_state :: "fetch_args \<Rightarrow> retrieval_state" where
  "initial_state a =
     \<lparr>article_data = [], record_count = 0, pbar_n = 0, requests = [],
      stdout = Found_unique_articles (total_records a)
               # (case record_limit a of
                    None \<Rightarrow> []
                  | Some l \<Rightarrow> if l \<noteq> 0 then [Retrieving_up_to l] else [])\<rparr>"

definition fetch_articles_in_batches :: "fetch_args \<Rightarrow> http \<Rightarrow> outcome" where
  "fetch_articles_in_batches a requests_get =
     (case py_range 0 (total_to_retrieve a) (batch_size a) of
        Inl e \<Rightarrow> Raised e (initial_state a)
      | Inr offsets \<Rightarrow> batches a requests_get offsets (initial_state a))"

section \<open>save_to_csv\<close>

definition header :: "string list" where
  "header = [''PMID'', ''Title'', ''Year'', ''Last Name'', ''First Name'', ''Initials'', ''Affiliation'']"

text \<open>
  The rows handed to the CSV writer, in order: the header, then the data. How the writer
  quotes a field is not modelled.
\<close>

definition save_to_csv :: "string list list \<Rightarrow> string list list" where
  "save_to_csv data = header # data"

section \<open>The states a run passes through\<close>

text \<open>
  The same two loops, returning every state they produce in order instead of the last
  one: the state after each processed article, after the preview line is printed, after
  each request is sent and after each move of the progress bar. Statements about every
  point of a run are statements about the members of this list.
\<close>

fun process_articles_trace :: "fetch_args \<Rightarrow> xml list \<Rightarrow> retrieval_state \<Rightarrow> retrieval_state list" where
  "process_articles_trace a [] s = []"
| "process_articles_trace a (article # articles) s =
     (if dry_run a \<and> (case preview_limit a of
                         Some c \<Rightarrow> c \<le> int (length (article_data s))
                       | None \<Rightarrow> False)
      then [s\<lparr>stdout := stdout s @ [Dry_run_processed (length (article_data s))]\<rparr>]
      else if (case record_limit a of Some l \<Rightarrow> l \<le> record_count s | None \<Rightarrow> False)
      then []
      else (case extract_article article (article_data s) of
              Inl e \<Rightarrow> []
            | Inr rows \<Rightarrow>
                s\<lparr>article_data := rows, record_count := record_count s + 1\<rparr>
                # process_articles_trace a articles
                    (s\<lparr>article_data := rows, record_count := record_count s + 1\<rparr>)))"

fun batches_trace :: "fetch_args \<Rightarrow> http \<Rightarrow> int list \<Rightarrow> retrieval_state \<Rightarrow> retrieval_state list" where
  "batches_trace a requests_get [] s = []"
| "batches_trace a requests_get (retstart # rest) s =
     (let current_batch_size = min (batch_size a) (total_to_retrieve a - record_count s);
          params = efetch_params a retstart current_batch_size;
          s1 = s\<lparr>requests := requests s @ [params]\<rparr>
      in s1 #
         (case requests_get efetch_url params of
            Inl e \<Rightarrow> []
          | Inr soup \<Rightarrow>
              process_articles_trace a (find_all ''PubmedArticle'' soup) s1
              @ (case process_articles a (find_all ''PubmedArticle'' soup) s1 of
                   Raise e s2 \<Rightarrow> []
                 | Return s2 \<Rightarrow> []
                 | Exhausted s2 \<Rightarrow>
                     s2\<lparr>pbar_n := pbar_n s2 + current_batch_size\<rparr>
                     # batches_trace a requests_get rest
                         (s2\<lparr>pbar_n := pbar_n s2 + current_batch_size\<rparr>))))"

definition fetch_trace :: "fetch_args \<Rightarrow> http \<Rightarrow> retrieval_state list" where
  "fetch_trace a requests_get =
     initial_state a #
     (case py_range 0 (total_to_retrieve a) (batch_size a) of
        Inl e \<Rightarrow> []
      | Inr offsets \<Rightarrow> batches_trace a requests_get offsets (initial_state a))"

section \<open>Rows and payloads\<close>

text \<open>
  The values the extraction is shown below to produce: a field's text or the sentinel,
  the row of one author, the rows of one article.
\<close>

definition field_or_na :: "string \<Rightarrow> xml \<Rightarrow> string" where
  "field_or_na n x = (case find_tag n x of None \<Rightarrow> ''N/A'' | Some t \<Rightarrow> get_text t)"

definition year_or_na :: "xml \<Rightarrow> string" where
  "year_or_na article =
     (case find_tag ''PubDate'' article of None \<Rightarrow> ''N/A'' | Some d \<Rightarrow> field_or_na ''Year'' d)"

definition author_row :: "xml \<Rightarrow> xml \<Rightarrow> string list" where
  "author_row article author =
     [field_or_na ''PMID'' article, field_or_na ''ArticleTitle'' article, year_or_na article,
      field_or_na ''LastName'' author, field_or_na ''ForeName'' author,
      field_or_na ''Initials'' author, field_or_na ''Affiliation'' author]"

definition article_rows :: "xml \<Rightarrow> string list list" where
  "article_rows article = map (author_row article) (find_all ''Author'' article)"

text \<open>
  The articles of the payload that answers one request (none when the request fails),
  and all articles fetched by the requests a state has recorded, in order.
\<close>

definition payload_articles :: "http \<Rightarrow> params \<Rightarrow> xml list" where
  "payload_articles requests_get params =
     (case requests_get efetch_url params of
        Inl e \<Rightarrow> []
      | Inr soup \<Rightarrow> find_all ''PubmedArticle'' soup)"

definition fetched_articles :: "http \<Rightarrow> retrieval_state \<Rightarrow> xml list" where
  "fetched_articles requests_get s = concat (map (payload_articles requests_get) (requests s))"

section \<open>Auxiliary notions for the proofs\<close>

text \<open>
  The two guards of the article loop, the state after one article has been processed,
  and the pieces of one window: the size it asks for, the state once its request is
  recorded, the articles that come back, the state once the bar has moved.
\<close>

definition preview_reached :: "fetch_args \<Rightarrow> retrieval_state \<Rightarrow> bool" where
  "preview_reached a s \<longleftrightarrow> dry_run a \<and> 10 \<le> length (article_data s)"

definition limit_reached :: "fetch_args \<Rightarrow> retrieval_state \<Rightarrow> bool" where
  "limit_reached a s \<longleftrightarrow> (\<exists>l. record_limit a = Some l \<and> l \<le> record_count s)"

definition processed :: "xml \<Rightarrow> retrieval_state \<Rightarrow> retrieval_state" where
  "processed x s = s\<lparr>article_data := article_data s @ article_rows x,
                      record_count := record_count s + 1\<rparr>"

definition current_batch_size :: "fetch_args \<Rightarrow> retrieval_state \<Rightarrow> int" where
  "current_batch_size a s = min (batch_size a) (total_to_retrieve a - record_count s)"

definition request_sent :: "fetch_args \<Rightarrow> int \<Rightarrow> retrieval_state \<Rightarrow> retrieval_state" where
  "request_sent a retstart s =
     s\<lparr>requests := requests s @ [efetch_params a retstart (current_batch_size a s)]\<rparr>"

definition window_articles :: "fetch_args \<Rightarrow> http \<Rightarrow> int \<Rightarrow> retrieval_state \<Rightarrow> xml list" where
  "window_articles a requests_get retstart s =
     payload_articles requests_get (efetch_params a retstart (current_batch_size a s))"

definition bar_moved :: "int \<Rightarrow> retrieval_state \<Rightarrow> retrieval_state" where
  "bar_moved n s = s\<lparr>pbar_n := pbar_n s + n\<rparr>"

fun loop_state :: "loop_exit \<Rightarrow> retrieval_state" where
  "loop_state (Return s) = s"
| "loop_state (Exhausted s) = s"
| "loop_state (Raise e s) = s"

text \<open>
  \<open>advanced xs k s t\<close>: state \<open>t\<close> is state \<open>s\<close> after the first \<open>k\<close> articles of \<open>xs\<close>
  have been processed in full.
\<close>

definition advanced :: "xml list \<Rightarrow> nat \<Rightarrow> retrieval_state \<Rightarrow> retrieval_state \<Rightarrow> bool" where
  "advanced xs k s t \<longleftrightarrow>
     article_data t = article_data s @ concat (map article_rows (take k xs)) \<and>
     record_count t = record_count s + int k \<and>
     requests t = requests s \<and> pbar_n t = pbar_n s"

text \<open>
  Between two windows every fetched article has been processed (\<open>all_processed\<close>); at
  any point the accumulated rows are the complete rows of the first \<open>record_count\<close>
  fetched articles (\<open>consistent\<close>).
\<close>

definition all_processed :: "http \<Rightarrow> retrieval_state \<Rightarrow> bool" where
  "all_processed g s \<longleftrightarrow>
     record_count s = int (length (fetched_articles g s)) \<and>
     article_data s = concat (map article_rows (fetched_articles g s))"

definition consistent :: "http \<Rightarrow> retrieval_state \<Rightarrow> bool" where
  "consistent g t \<longleftrightarrow>
     (\<exists>k\<le>length (fetched_articles g t).
        record_count t = int k \<and>
        article_data t = concat (map article_rows (take k (fetched_articles g t))))"

text \<open>
  Between two windows of a run whose requests are answered exactly: the offsets still to
  come start where the counter stands, and the bar stands at the counter.
\<close>

definition in_step :: "fetch_args \<Rightarrow> int list \<Rightarrow> retrieval_state \<Rightarrow> bool" where
  "in_step a offs s \<longleftrightarrow>
     (\<exists>r. offs = range_up r (total_to_retrieve a) (batch_size a) \<and>
          record_count s = min r (total_to_retrieve a) \<and> pbar_n s = record_count s)"

text \<open>
  \<open>begun_below_cap\<close>: the articles processed before the last processed one gave fewer
  than ten rows together, so the last one was begun below the preview cap.
\<close>

definition begun_below_cap :: "http \<Rightarrow> retrieval_state \<Rightarrow> bool" where
  "begun_below_cap g t \<longleftrightarrow>
     (1 \<le> record_count t \<longrightarrow>
        length (concat (map article_rows
                  (take (nat (record_count t) - 1) (fetched_articles g t)))) < 10)"

text \<open>
  \<open>serves a g rs\<close>: the endpoint holds the result set \<open>rs\<close> and answers a request for
  \<open>n\<close> articles at offset \<open>r\<close> with the articles \<open>rs[r : r + n]\<close>. \<open>in_order\<close> is what
  then holds between two windows: the articles fetched so far are the first
  \<open>record_count\<close> of the result set, and all of them have been processed.
\<close>

definition serves :: "fetch_args \<Rightarrow> http \<Rightarrow> xml list \<Rightarrow> bool" where
  "serves a g rs \<longleftrightarrow>
     (\<forall>r n. 0 \<le> r \<and> 0 \<le> n \<longrightarrow>
        (\<exists>soup. g efetch_url (efetch_params a r n) = Inr soup \<and>
                find_all ''PubmedArticle'' soup = take (nat n) (drop (nat r) rs)))"

definition in_order :: "fetch_args \<Rightarrow> http \<Rightarrow> xml list \<Rightarrow> int list \<Rightarrow> retrieval_state \<Rightarrow> bool" where
  "in_order a g rs offs s \<longleftrightarrow>
     (\<exists>r. 0 \<le> r \<and> offs = range_up r (total_to_retrieve a) (batch_size a) \<and>
          record_count s = min r (total_to_retrieve a) \<and>
          fetched_articles g s = take (nat (record_count s)) rs \<and>
          all_processed g s \<and> begun_below_cap g s)"

section \<open>Example inputs\<close>

text \<open>
  An article with a PMID and \<open>k\<close> authors who have a last name only; an endpoint that
  answers every request with the same articles; an endpoint that answers with as many
  copies of one article as \<^verbatim>\<open>retmax\<close> asks for; and arguments with the default batch size.
\<close>

definition example_author :: xml where
  "example_author = Tag ''Author'' [Tag ''LastName'' [NavigableString ''Doe'']]"

definition article_with :: "nat \<Rightarrow> xml" where
  "article_with k =
     Tag ''PubmedArticle'' (Tag ''PMID'' [NavigableString ''7''] # replicate k example_author)"

definition fixed_payload :: "xml list \<Rightarrow> http" where
  "fixed_payload xs = (\<lambda>url params. Inr (Tag ''PubmedArticleSet'' xs))"

definition counting_payload :: "xml \<Rightarrow> http" where
  "counting_payload x =
     (\<lambda>url params. case map_of params ''retmax'' of
                      Some (PyInt n) \<Rightarrow> Inr (Tag ''PubmedArticleSet'' (replicate (nat n) x))
                    | _ \<Rightarrow> Inl RequestException)"

text \<open>An endpoint that serves a result set by offset and size.\<close>

definition serving_payload :: "xml list \<Rightarrow> http" where
  "serving_payload rs =
     (\<lambda>url params. case (map_of params ''retstart'', map_of params ''retmax'') of
                      (Some (PyInt r), Some (PyInt n)) \<Rightarrow>
                         Inr (Tag ''PubmedArticleSet'' (take (nat n) (drop (nat r) rs)))
                    | _ \<Rightarrow> Inl RequestException)"

definition example_args :: "int \<Rightarrow> int option \<Rightarrow> bool \<Rightarrow> fetch_args" where
  "example_args n l d =
     \<lparr>api_key = ''k'', web_env = ''w'', query_key = ''1'', total_records = n,
      record_limit = l, batch_size = 500, dry_run = d\<rparr>"

section \<open>Extraction never fails\<close>

lemma text_or_na_total: "text_or_na n x = Inr (field_or_na n x)"
  by (cases "find_tag n x") (simp_all add: text_or_na_def field_or_na_def)

lemma year_of_total: "year_of article = Inr (year_or_na article)"
proof (cases "find_tag ''PubDate'' article")
  case None
  then show ?thesis by (simp add: year_of_def year_or_na_def)
next
  case (Some d)
  then show ?thesis
    by (cases "find_tag ''Year'' d") (simp_all add: year_of_def year_or_na_def field_or_na_def)
qed

lemma append_authors_total:
  "append_authors (field_or_na ''PMID'' article) (field_or_na ''ArticleTitle'' article)
     (year_or_na article) authors data
   = Inr (data @ map (author_row article) authors)"
  by (induction authors arbitrary: data) (simp_all add: text_or_na_total author_row_def)

lemma extract_article_total: "extract_article article data = Inr (data @ article_rows article)"
  by (simp add: extract_article_def text_or_na_total year_of_total append_authors_total
      article_rows_def)

lemma length_article_rows: "length (article_rows article) = length (find_all ''Author'' article)"
  by (simp add: article_rows_def)

lemma length_author_row: "length (author_row article author) = 7"
  by (simp add: author_row_def)

text \<open>
  C4. Extracting an article never raises and always yields one row of seven columns per
  author. A column whose element is missing holds \<open>''N/A''\<close>: the PMID and the title when
  the article has no such tag, the year when the article has no \<open>PubDate\<close> or its first
  \<open>PubDate\<close> has no \<open>Year\<close>, and each of the four author columns when the author has no
  such tag. Otherwise the column holds the text of the first matching tag.
\<close>

theorem extraction_total_with_sentinel:
  "extract_article article data = Inr (data @ article_rows article) \<and>
   length (article_rows article) = length (find_all ''Author'' article) \<and>
   (\<forall>i < length (find_all ''Author'' article).
      length (article_rows article ! i) = 7 \<and>
      article_rows article ! i ! 0 =
        (case find_tag ''PMID'' article of None \<Rightarrow> ''N/A'' | Some t \<Rightarrow> get_text t) \<and>
      article_rows article ! i ! 1 =
        (case find_tag ''ArticleTitle'' article of None \<Rightarrow> ''N/A'' | Some t \<Rightarrow> get_text t) \<and>
      article_rows article ! i ! 2 =
        (case find_tag ''PubDate'' article of
           None \<Rightarrow> ''N/A''
         | Some d \<Rightarrow> (case find_tag ''Year'' d of None \<Rightarrow> ''N/A'' | Some y \<Rightarrow> get_text y)) \<and>
      article_rows article ! i ! 3 =
        (case find_tag ''LastName'' (find_all ''Author'' article ! i) of
           None \<Rightarrow> ''N/A'' | Some t \<Rightarrow> get_text t) \<and>
      article_rows article ! i ! 4 =
        (case find_tag ''ForeName'' (find_all ''Author'' article ! i) of
           None \<Rightarrow> ''N/A'' | Some t \<Rightarrow> get_text t) \<and>
      article_rows article ! i ! 5 =
        (case find_tag ''Initials'' (find_all ''Author'' article ! i) of
           None \<Rightarrow> ''N/A'' | Some t \<Rightarrow> get_text t) \<and>
      article_rows article ! i ! 6 =
        (case find_tag ''Affiliation'' (find_all ''Author'' article ! i) of
           None \<Rightarrow> ''N/A'' | Some t \<Rightarrow> get_text t))"
proof (intro conjI allI impI)
  show "extract_article article data = Inr (data @ article_rows article)"
    by (rule extract_article_total)
  show "length (article_rows article) = length (find_all ''Author'' article)"
    by (rule length_article_rows)
next
  fix i
  assume i: "i < length (find_all ''Author'' article)"
  then have row: "article_rows article ! i = author_row article (find_all ''Author'' article ! i)"
    by (simp add: article_rows_def)
  show "length (article_rows article ! i) = 7"
    by (simp add: row length_author_row)
  show "article_rows article ! i ! 0 =
        (case find_tag ''PMID'' article of None \<Rightarrow> ''N/A'' | Some t \<Rightarrow> get_text t)"
    by (simp add: row author_row_def field_or_na_def)
  show "article_rows article ! i ! 1 =
        (case find_tag ''ArticleTitle'' article of None \<Rightarrow> ''N/A'' | Some t \<Rightarrow> get_text t)"
    by (simp add: row author_row_def field_or_na_def)
  show "article_rows article ! i ! 2 =
        (case find_tag ''PubDate'' article of
           None \<Rightarrow> ''N/A''
         | Some d \<Rightarrow> (case find_tag ''Year'' d of None \<Rightarrow> ''N/A'' | Some y \<Rightarrow> get_text y))"
    by (simp add: row author_row_def year_or_na_def field_or_na_def split: option.splits)
  show "article_rows article ! i ! 3 =
        (case find_tag ''LastName'' (find_all ''Author'' article ! i) of
           None \<Rightarrow> ''N/A'' | Some t \<Rightarrow> get_text t)"
    by (simp add: row author_row_def field_or_na_def)
  show "article_rows article ! i ! 4 =
        (case find_tag ''ForeName'' (find_all ''Author'' article ! i) of
           None \<Rightarrow> ''N/A'' | Some t \<Rightarrow> get_text t)"
    by (simp add: row author_row_def field_or_na_def)
  show "article_rows article ! i ! 5 =
        (case find_tag ''Initials'' (find_all ''Author'' article ! i) of
           None \<Rightarrow> ''N/A'' | Some t \<Rightarrow> get_text t)"
    by (simp add: row author_row_def field_or_na_def)
  show "article_rows article ! i ! 6 =
        (case find_tag ''Affiliation'' (find_all ''Author'' article ! i) of
           None \<Rightarrow> ''N/A'' | Some t \<Rightarrow> get_text t)"
    by (simp add: row author_row_def field_or_na_def)
qed

text \<open>
  An article with a title and a date without a year, and one author who has only a last
  name: the row holds the sentinel in the five other columns.
\<close>

theorem extraction_total_with_sentinel_witness:
  "(0::nat) < length (find_all ''Author''
      (Tag ''PubmedArticle''
         [Tag ''ArticleTitle'' [NavigableString ''T''],
          Tag ''PubDate'' [Tag ''Month'' [NavigableString ''Jan'']],
          Tag ''Author'' [Tag ''LastName'' [NavigableString ''Doe'']]])) \<and>
   extract_article
      (Tag ''PubmedArticle''
         [Tag ''ArticleTitle'' [NavigableString ''T''],
          Tag ''PubDate'' [Tag ''Month'' [NavigableString ''Jan'']],
          Tag ''Author'' [Tag ''LastName'' [NavigableString ''Doe'']]]) []
   = Inr [[''N/A'', ''T'', ''N/A'', ''Doe'', ''N/A'', ''N/A'', ''N/A'']]"
  using extraction_total_with_sentinel
    [of "Tag ''PubmedArticle''
         [Tag ''ArticleTitle'' [NavigableString ''T''],
          Tag ''PubDate'' [Tag ''Month'' [NavigableString ''Jan'']],
          Tag ''Author'' [Tag ''LastName'' [NavigableString ''Doe'']]]" "[]"]
  by (simp add: find_all_def find_tag_def article_rows_def author_row_def field_or_na_def
      year_or_na_def)

section \<open>The search request\<close>

text \<open>
  C8. When the search endpoint answers and the answer lacks a \<open>Count\<close>, a \<open>WebEnv\<close> or a
  \<open>QueryKey\<close> element, \<open>get_total_records\<close> raises instead of returning a session, and it
  has sent exactly one request. The exception is the \<^verbatim>\<open>AttributeError\<close> of reading
  \<^verbatim>\<open>.text\<close> of \<^verbatim>\<open>None\<close>, or the \<^verbatim>\<open>ValueError\<close> of \<^verbatim>\<open>int\<close> when a \<open>Count\<close> element is there but
  its text is no integer; it is never the transport exception.
\<close>

theorem get_total_records_missing_field:
  assumes "requests_get esearch_url (esearch_params key keyword start_date end_date) = Inr soup"
    and "find_tag ''Count'' soup = None \<or> find_tag ''WebEnv'' soup = None
         \<or> find_tag ''QueryKey'' soup = None"
  shows "\<exists>e. get_total_records py_int requests_get key keyword start_date end_date
              = ([esearch_params key keyword start_date end_date], Inl e) \<and>
             (e = AttributeError \<or>
              e = ValueError \<and> (\<exists>c. find_tag ''Count'' soup = Some c \<and> py_int (get_text c) = None))"
proof (cases "find_tag ''Count'' soup")
  case None
  with assms(1) show ?thesis by (simp add: get_total_records_def)
next
  case count: (Some c)
  show ?thesis
  proof (cases "py_int (get_text c)")
    case None
    with assms(1) count show ?thesis by (simp add: get_total_records_def)
  next
    case number: (Some n)
    show ?thesis
    proof (cases "find_tag ''WebEnv'' soup")
      case None
      with assms(1) count number show ?thesis by (simp add: get_total_records_def)
    next
      case (Some w)
      with assms(2) count have "find_tag ''QueryKey'' soup = None" by simp
      with assms(1) count number Some show ?thesis by (simp add: get_total_records_def)
    qed
  qed
qed

text \<open>An answer with a count and a session token but no query key.\<close>

theorem get_total_records_missing_field_witness:
  "get_total_records (\<lambda>t. Some 5)
     (\<lambda>url params. Inr (Tag ''eSearchResult''
        [Tag ''Count'' [NavigableString ''5''], Tag ''WebEnv'' [NavigableString ''MCID'']]))
     ''key'' ''cancer'' ''2022/01/01'' None
   = ([esearch_params ''key'' ''cancer'' ''2022/01/01'' None], Inl AttributeError)"
proof -
  let ?soup = "Tag ''eSearchResult''
        [Tag ''Count'' [NavigableString ''5''], Tag ''WebEnv'' [NavigableString ''MCID'']]"
  have missing: "find_tag ''Count'' ?soup = None \<or> find_tag ''WebEnv'' ?soup = None
         \<or> find_tag ''QueryKey'' ?soup = None"
    by (simp add: find_tag_def find_all_def)
  have present: "find_tag ''Count'' ?soup \<noteq> None"
    by (simp add: find_tag_def find_all_def)
  from get_total_records_missing_field
    [of "\<lambda>url params. Inr ?soup" "''key''" "''cancer''" "''2022/01/01''" None ?soup
        "\<lambda>t. Some 5", OF refl missing]
  show ?thesis using present by auto
qed

section \<open>Fields of the auxiliary states\<close>

lemma bar_moved_fields [simp]:
  "article_data (bar_moved n s) = article_data s"
  "record_count (bar_moved n s) = record_count s"
  "requests (bar_moved n s) = requests s"
  "stdout (bar_moved n s) = stdout s"
  "pbar_n (bar_moved n s) = pbar_n s + n"
  by (simp_all add: bar_moved_def)

lemma request_sent_fields [simp]:
  "article_data (request_sent a r s) = article_data s"
  "record_count (request_sent a r s) = record_count s"
  "requests (request_sent a r s) = requests s @ [efetch_params a r (current_batch_size a s)]"
  "stdout (request_sent a r s) = stdout s"
  "pbar_n (request_sent a r s) = pbar_n s"
  by (simp_all add: request_sent_def)

lemma processed_fields [simp]:
  "article_data (processed x s) = article_data s @ article_rows x"
  "record_count (processed x s) = record_count s + 1"
  "requests (processed x s) = requests s"
  "stdout (processed x s) = stdout s"
  "pbar_n (processed x s) = pbar_n s"
  by (simp_all add: processed_def)

section \<open>The article loop\<close>

lemma preview_check:
  "(dry_run a \<and> (case preview_limit a of
                    Some c \<Rightarrow> c \<le> int (length (article_data s))
                  | None \<Rightarrow> False))
   = preview_reached a s"
  by (auto simp: preview_limit_def preview_reached_def)

lemma limit_check:
  "(case record_limit a of Some l \<Rightarrow> l \<le> record_count s | None \<Rightarrow> False) = limit_reached a s"
  by (simp add: limit_reached_def split: option.splits)

text \<open>One turn of the loop, with the extraction resolved.\<close>

lemma process_articles_step:
  "process_articles a (x # xs) s =
     (if preview_reached a s
      then Return (s\<lparr>stdout := stdout s @ [Dry_run_processed (length (article_data s))]\<rparr>)
      else if limit_reached a s then Return s
      else process_articles a xs (processed x s))"
  by (simp only: process_articles.simps preview_check limit_check extract_article_total
      sum.case processed_def)

lemma process_articles_trace_step:
  "process_articles_trace a (x # xs) s =
     (if preview_reached a s
      then [s\<lparr>stdout := stdout s @ [Dry_run_processed (length (article_data s))]\<rparr>]
      else if limit_reached a s then []
      else processed x s # process_articles_trace a xs (processed x s))"
  by (simp only: process_articles_trace.simps preview_check limit_check extract_article_total
      sum.case processed_def)

declare process_articles.simps(2) [simp del]
declare process_articles_trace.simps(2) [simp del]

lemma advanced_refl: "advanced xs 0 s s"
  by (simp add: advanced_def)

lemma advanced_print: "advanced xs 0 s (s\<lparr>stdout := out\<rparr>)"
  by (simp add: advanced_def)

lemma advanced_step:
  assumes "advanced xs k (processed x s) t"
  shows "advanced (x # xs) (Suc k) s t"
  using assms by (simp add: advanced_def processed_def)

lemma process_articles_trace_advanced:
  "t \<in> set (process_articles_trace a xs s) \<Longrightarrow> \<exists>k\<le>length xs. advanced xs k s t"
proof (induction xs arbitrary: s)
  case Nil
  then show ?case by simp
next
  case (Cons x xs)
  from Cons.prems consider
      (print) "t = s\<lparr>stdout := stdout s @ [Dry_run_processed (length (article_data s))]\<rparr>"
    | (here) "t = processed x s"
    | (later) "t \<in> set (process_articles_trace a xs (processed x s))"
    by (auto simp: process_articles_trace_step split: if_splits)
  then show ?case
  proof cases
    case print
    then have "advanced (x # xs) 0 s t" by (simp add: advanced_print)
    then show ?thesis by blast
  next
    case here
    have "advanced xs 0 (processed x s) (processed x s)" by (rule advanced_refl)
    then have "advanced (x # xs) (Suc 0) s t" unfolding here by (rule advanced_step)
    then show ?thesis by auto
  next
    case later
    then obtain k where "k \<le> length xs" and "advanced xs k (processed x s) t"
      using Cons.IH by blast
    then have "Suc k \<le> length (x # xs)" and "advanced (x # xs) (Suc k) s t"
      by (simp_all add: advanced_step)
    then show ?thesis by blast
  qed
qed

text \<open>The loop ends in the last state of its trace.\<close>

lemma process_articles_last:
  "loop_state (process_articles a xs s) = last (s # process_articles_trace a xs s)"
proof (induction xs arbitrary: s)
  case Nil
  then show ?case by simp
next
  case (Cons x xs)
  show ?case
    by (simp add: process_articles_step process_articles_trace_step Cons.IH)
qed

lemma process_articles_never_raises: "process_articles a xs s \<noteq> Raise e t"
  by (induction xs arbitrary: s) (simp_all add: process_articles_step)

lemma process_articles_Exhausted:
  "process_articles a xs s = Exhausted t \<Longrightarrow> advanced xs (length xs) s t \<and> stdout t = stdout s"
proof (induction xs arbitrary: s)
  case Nil
  then show ?case by (simp add: advanced_def)
next
  case (Cons x xs)
  from Cons.prems have "process_articles a xs (processed x s) = Exhausted t"
    by (simp add: process_articles_step split: if_splits)
  then have "advanced xs (length xs) (processed x s) t \<and> stdout t = stdout (processed x s)"
    by (rule Cons.IH)
  then show ?case by (simp add: advanced_step)
qed

lemma process_articles_Return:
  assumes "process_articles a xs s = Return t"
  shows "\<exists>k<length xs. advanced xs k s t \<and> (preview_reached a t \<or> limit_reached a t)"
  using assms
proof (induction xs arbitrary: s)
  case Nil
  then show ?case by simp
next
  case (Cons x xs)
  let ?goal = "\<lambda>k. advanced (x # xs) k s t \<and> (preview_reached a t \<or> limit_reached a t)"
  show ?case
  proof (cases "preview_reached a s")
    case True
    with Cons.prems
    have "t = s\<lparr>stdout := stdout s @ [Dry_run_processed (length (article_data s))]\<rparr>"
      by (simp add: process_articles_step)
    with True have "?goal 0" by (simp add: advanced_print preview_reached_def)
    then show ?thesis by auto
  next
    case no_preview: False
    show ?thesis
    proof (cases "limit_reached a s")
      case True
      with no_preview Cons.prems have "t = s" by (simp add: process_articles_step)
      with True have "?goal 0" by (simp add: advanced_refl)
      then show ?thesis by auto
    next
      case False
      with no_preview Cons.prems have "process_articles a xs (processed x s) = Return t"
        by (simp add: process_articles_step)
      then obtain k where "k < length xs" and "advanced xs k (processed x s) t"
        and "preview_reached a t \<or> limit_reached a t"
        using Cons.IH by blast
      then have "Suc k < length (x # xs) \<and> ?goal (Suc k)"
        by (simp add: advanced_step)
      then show ?thesis by blast
    qed
  qed
qed

section \<open>The window loop\<close>

lemma batches_step:
  "batches a g (r # rest) s =
     (case g efetch_url (efetch_params a r (current_batch_size a s)) of
        Inl e \<Rightarrow> Raised e (request_sent a r s)
      | Inr soup \<Rightarrow>
         (case process_articles a (window_articles a g r s) (request_sent a r s) of
            Raise e s2 \<Rightarrow> Raised e s2
          | Return s2 \<Rightarrow> Returned s2
          | Exhausted s2 \<Rightarrow> batches a g rest (bar_moved (current_batch_size a s) s2)))"
  by (simp add: Let_def current_batch_size_def request_sent_def window_articles_def
      payload_articles_def bar_moved_def split: sum.splits loop_exit.splits)

lemma batches_trace_step:
  "batches_trace a g (r # rest) s =
     request_sent a r s #
     process_articles_trace a (window_articles a g r s) (request_sent a r s)
     @ (case g efetch_url (efetch_params a r (current_batch_size a s)) of
          Inl e \<Rightarrow> []
        | Inr soup \<Rightarrow>
           (case process_articles a (window_articles a g r s) (request_sent a r s) of
              Raise e s2 \<Rightarrow> []
            | Return s2 \<Rightarrow> []
            | Exhausted s2 \<Rightarrow>
                bar_moved (current_batch_size a s) s2
                # batches_trace a g rest (bar_moved (current_batch_size a s) s2)))"
  by (simp add: Let_def current_batch_size_def request_sent_def window_articles_def
      payload_articles_def bar_moved_def split: sum.splits loop_exit.splits)

declare batches.simps(2) [simp del]
declare batches_trace.simps(2) [simp del]

text \<open>The call ends in the last state of its trace.\<close>

lemma batches_last: "final_state (batches a g offs s) = last (s # batches_trace a g offs s)"
proof (induction offs arbitrary: s)
  case Nil
  then show ?case by simp
next
  case (Cons r rest)
  show ?case
  proof (cases "g efetch_url (efetch_params a r (current_batch_size a s))")
    case (Inl e)
    then show ?thesis
      by (simp add: batches_step batches_trace_step window_articles_def payload_articles_def)
  next
    case (Inr soup)
    have l: "loop_state (process_articles a (window_articles a g r s) (request_sent a r s))
      = last (request_sent a r s
              # process_articles_trace a (window_articles a g r s) (request_sent a r s))"
      by (rule process_articles_last)
    show ?thesis
    proof (cases "process_articles a (window_articles a g r s) (request_sent a r s)")
      case (Return s2)
      with Inr l show ?thesis by (simp add: batches_step batches_trace_step)
    next
      case (Exhausted s2)
      with Inr Cons.IH [of "bar_moved (current_batch_size a s) s2"] show ?thesis
        by (simp add: batches_step batches_trace_step)
    next
      case (Raise e s2)
      with Inr l show ?thesis by (simp add: batches_step batches_trace_step)
    qed
  qed
qed

lemma fetch_last: "final_state (fetch_articles_in_batches a g) = last (fetch_trace a g)"
  by (cases "py_range 0 (total_to_retrieve a) (batch_size a)")
     (simp_all add: fetch_articles_in_batches_def fetch_trace_def batches_last)

lemma final_state_in_trace: "final_state (fetch_articles_in_batches a g) \<in> set (fetch_trace a g)"
  unfolding fetch_last by (rule last_in_set) (simp add: fetch_trace_def)

text \<open>
  An invariant rule for the window loop. \<open>I\<close> holds between windows (it may speak about
  the offsets still to come), \<open>P\<close> is shown for every state of the trace.
\<close>

lemma batches_trace_invariant:
  assumes start: "I offs s"
    and inside: "\<And>r rest s t. I (r # rest) s \<Longrightarrow>
          t = request_sent a r s \<or>
          t \<in> set (process_articles_trace a (window_articles a g r s) (request_sent a r s))
          \<Longrightarrow> P t"
    and boundary: "\<And>r rest s t. I (r # rest) s \<Longrightarrow>
          process_articles a (window_articles a g r s) (request_sent a r s) = Exhausted t
          \<Longrightarrow> I rest (bar_moved (current_batch_size a s) t)
              \<and> P (bar_moved (current_batch_size a s) t)"
  shows "\<forall>t \<in> set (batches_trace a g offs s). P t"
  using start
proof (induction offs arbitrary: s)
  case Nil
  then show ?case by simp
next
  case (Cons r rest)
  let ?s1 = "request_sent a r s"
  let ?xs = "window_articles a g r s"
  have in_window: "\<forall>t \<in> set (?s1 # process_articles_trace a ?xs ?s1). P t"
    using inside [OF Cons.prems] by auto
  show ?case
  proof (cases "g efetch_url (efetch_params a r (current_batch_size a s))")
    case (Inl e)
    with in_window show ?thesis by (simp add: batches_trace_step)
  next
    case (Inr soup)
    show ?thesis
    proof (cases "process_articles a ?xs ?s1")
      case (Return s2)
      with Inr in_window show ?thesis by (simp add: batches_trace_step)
    next
      case (Raise e s2)
      with Inr in_window show ?thesis by (simp add: batches_trace_step)
    next
      case (Exhausted s2)
      let ?s3 = "bar_moved (current_batch_size a s) s2"
      from boundary [OF Cons.prems Exhausted] have next_I: "I rest ?s3" and "P ?s3"
        by simp_all
      moreover from next_I have "\<forall>t \<in> set (batches_trace a g rest ?s3). P t"
        by (rule Cons.IH)
      ultimately show ?thesis using Inr Exhausted in_window
        by (auto simp: batches_trace_step)
    qed
  qed
qed

text \<open>The same for the way the call ends.\<close>

lemma batches_outcome:
  assumes start: "I offs s"
    and boundary: "\<And>r rest s t. I (r # rest) s \<Longrightarrow>
          process_articles a (window_articles a g r s) (request_sent a r s) = Exhausted t
          \<Longrightarrow> I rest (bar_moved (current_batch_size a s) t)"
    and raised: "\<And>r rest s e. I (r # rest) s \<Longrightarrow>
          g efetch_url (efetch_params a r (current_batch_size a s)) = Inl e
          \<Longrightarrow> Q (Raised e (request_sent a r s))"
    and returned: "\<And>r rest s t. I (r # rest) s \<Longrightarrow>
          process_articles a (window_articles a g r s) (request_sent a r s) = Return t
          \<Longrightarrow> Q (Returned t)"
    and finished: "\<And>s. I [] s \<Longrightarrow> Q (Returned s)"
  shows "Q (batches a g offs s)"
  using start
proof (induction offs arbitrary: s)
  case Nil
  then show ?case by (simp add: finished)
next
  case (Cons r rest)
  show ?case
  proof (cases "g efetch_url (efetch_params a r (current_batch_size a s))")
    case (Inl e)
    with raised [OF Cons.prems Inl] show ?thesis by (simp add: batches_step)
  next
    case (Inr soup)
    show ?thesis
    proof (cases "process_articles a (window_articles a g r s) (request_sent a r s)")
      case (Return s2)
      with Inr returned [OF Cons.prems Return] show ?thesis by (simp add: batches_step)
    next
      case (Raise e s2)
      then show ?thesis by (simp add: process_articles_never_raises)
    next
      case (Exhausted s2)
      from Cons.prems Exhausted have "I rest (bar_moved (current_batch_size a s) s2)"
        by (rule boundary)
      then have "Q (batches a g rest (bar_moved (current_batch_size a s) s2))"
        by (rule Cons.IH)
      with Inr Exhausted show ?thesis by (simp add: batches_step)
    qed
  qed
qed

section \<open>Frame and shape of the loops\<close>

lemma initial_state_fields [simp]:
  "article_data (initial_state a) = []"
  "record_count (initial_state a) = 0"
  "pbar_n (initial_state a) = 0"
  "requests (initial_state a) = []"
  by (simp_all add: initial_state_def)

lemma process_articles_trace_frame:
  assumes "t \<in> set (process_articles_trace a xs s)"
  shows "requests t = requests s" and "pbar_n t = pbar_n s"
  using process_articles_trace_advanced [OF assms] by (auto simp: advanced_def)

lemma process_articles_Exhausted_frame:
  assumes "process_articles a xs s = Exhausted t"
  shows "requests t = requests s" and "pbar_n t = pbar_n s" and "stdout t = stdout s"
    and "record_count t = record_count s + int (length xs)"
    and "article_data t = article_data s @ concat (map article_rows xs)"
  using process_articles_Exhausted [OF assms] by (auto simp: advanced_def)

lemma process_articles_Return_frame:
  assumes "process_articles a xs s = Return t"
  shows "requests t = requests s" and "pbar_n t = pbar_n s"
  using process_articles_Return [OF assms] by (auto simp: advanced_def)

text \<open>Once the limit is reached (and the preview cap is not) the loop does nothing more.\<close>

lemma limit_reached_loop:
  assumes "limit_reached a s" and "\<not> preview_reached a s"
  shows "process_articles_trace a xs s = []"
    and "process_articles a xs s = (if xs = [] then Exhausted s else Return s)"
  using assms by (cases xs; simp add: process_articles_step process_articles_trace_step)+

text \<open>Without dry-run and below the limit every article of the payload is processed.\<close>

lemma process_articles_all:
  assumes "\<not> dry_run a"
    and "record_limit a = None \<or> (\<exists>l. record_limit a = Some l \<and> record_count s + int (length xs) \<le> l)"
  shows "process_articles a xs s
         = Exhausted (s\<lparr>article_data := article_data s @ concat (map article_rows xs),
                        record_count := record_count s + int (length xs)\<rparr>)"
  using assms(2)
proof (induction xs arbitrary: s)
  case Nil
  then show ?case by simp
next
  case (Cons x xs)
  from assms(1) have no_preview: "\<not> preview_reached a s"
    by (simp add: preview_reached_def)
  from Cons.prems have no_limit: "\<not> limit_reached a s"
    by (auto simp: limit_reached_def)
  from Cons.prems
  have "record_limit a = None \<or>
        (\<exists>l. record_limit a = Some l \<and> record_count (processed x s) + int (length xs) \<le> l)"
    by auto
  then have "process_articles a xs (processed x s)
         = Exhausted ((processed x s)\<lparr>article_data := article_data (processed x s)
                                         @ concat (map article_rows xs),
                        record_count := record_count (processed x s) + int (length xs)\<rparr>)"
    by (rule Cons.IH)
  with no_preview no_limit show ?case
    by (simp add: process_articles_step)
qed

lemma range_up_Cons:
  "0 < step \<Longrightarrow> i < stop \<Longrightarrow> range_up i stop step = i # range_up (i + step) stop step"
  by (subst range_up.simps) simp

lemma range_up_Nil: "\<not> (0 < step \<and> i < stop) \<Longrightarrow> range_up i stop step = []"
  by (subst range_up.simps) simp

lemma range_down_Nil: "\<not> (step < 0 \<and> stop < i) \<Longrightarrow> range_down i stop step = []"
  by (subst range_down.simps) simp

lemma range_up_one:
  "0 < step \<Longrightarrow> 0 < stop \<Longrightarrow> stop \<le> step \<Longrightarrow> range_up 0 stop step = [0]"
  by (simp add: range_up_Cons range_up_Nil)

lemma one_window:
  assumes "0 < total_to_retrieve a" and "total_to_retrieve a \<le> batch_size a"
  shows "fetch_articles_in_batches a g = batches a g [0] (initial_state a)"
  using assms by (simp add: fetch_articles_in_batches_def py_range_def range_up_one)

lemma returned_in_trace:
  assumes "fetch_articles_in_batches a g = Returned s"
  shows "s \<in> set (fetch_trace a g)"
  using final_state_in_trace [of a g] assms by simp

section \<open>The rows are those of the processed articles\<close>

lemma fetched_request_sent:
  "fetched_articles g (request_sent a r s) = fetched_articles g s @ window_articles a g r s"
  by (simp add: fetched_articles_def request_sent_def window_articles_def)

lemma fetched_same_requests:
  "requests t = requests s \<Longrightarrow> fetched_articles g t = fetched_articles g s"
  by (simp add: fetched_articles_def)

lemma all_processed_consistent: "all_processed g s \<Longrightarrow> consistent g s"
  unfolding all_processed_def consistent_def
  by (intro exI [of _ "length (fetched_articles g s)"]) simp

lemma all_processed_initial: "all_processed g (initial_state a)"
  by (simp add: all_processed_def fetched_articles_def)

lemma all_processed_advanced:
  assumes "all_processed g s" and "k \<le> length (window_articles a g r s)"
    and "advanced (window_articles a g r s) k (request_sent a r s) t"
  shows "consistent g t"
proof -
  let ?xs = "window_articles a g r s"
  from assms(3) have req: "requests t = requests (request_sent a r s)"
    and rc: "record_count t = record_count (request_sent a r s) + int k"
    and data: "article_data t
               = article_data (request_sent a r s) @ concat (map article_rows (take k ?xs))"
    by (simp_all add: advanced_def)
  have f: "fetched_articles g t = fetched_articles g s @ ?xs"
    using fetched_same_requests [OF req] by (simp add: fetched_request_sent)
  let ?n = "length (fetched_articles g s) + k"
  from assms(1,2) rc data
  have "?n \<le> length (fetched_articles g t) \<and> record_count t = int ?n \<and>
        article_data t = concat (map article_rows (take ?n (fetched_articles g t)))"
    by (simp add: f all_processed_def)
  then show ?thesis unfolding consistent_def by blast
qed

lemma all_processed_Exhausted:
  assumes "all_processed g s"
    and "process_articles a (window_articles a g r s) (request_sent a r s) = Exhausted t"
  shows "all_processed g (bar_moved n t)"
proof -
  let ?xs = "window_articles a g r s"
  from assms(2) have adv: "advanced ?xs (length ?xs) (request_sent a r s) t"
    by (simp add: process_articles_Exhausted)
  then have req: "requests (bar_moved n t) = requests (request_sent a r s)"
    by (simp add: advanced_def)
  have f: "fetched_articles g (bar_moved n t) = fetched_articles g s @ ?xs"
    using fetched_same_requests [OF req] by (simp add: fetched_request_sent)
  from adv assms(1) show ?thesis
    by (simp add: all_processed_def f advanced_def)
qed

lemma all_processed_request_sent:
  assumes "all_processed g s"
  shows "consistent g (request_sent a r s)"
  using assms all_processed_advanced [of g s 0 a r "request_sent a r s"]
  by (simp add: advanced_refl)

lemma batches_trace_consistent:
  assumes "all_processed g s"
  shows "\<forall>t \<in> set (batches_trace a g offs s). consistent g t"
proof (rule batches_trace_invariant [where I = "\<lambda>offs s. all_processed g s"])
  show "all_processed g s" by (rule assms)
next
  fix r rest s t
  assume I: "all_processed g s"
    and "t = request_sent a r s \<or>
         t \<in> set (process_articles_trace a (window_articles a g r s) (request_sent a r s))"
  then show "consistent g t"
  proof (elim disjE)
    assume "t = request_sent a r s"
    with I show ?thesis by (simp add: all_processed_request_sent)
  next
    assume "t \<in> set (process_articles_trace a (window_articles a g r s) (request_sent a r s))"
    then obtain k where "k \<le> length (window_articles a g r s)"
      and "advanced (window_articles a g r s) k (request_sent a r s) t"
      using process_articles_trace_advanced by blast
    with I show ?thesis by (rule all_processed_advanced)
  qed
next
  fix r rest s t
  assume "all_processed g s"
    and "process_articles a (window_articles a g r s) (request_sent a r s) = Exhausted t"
  then have "all_processed g (bar_moved (current_batch_size a s) t)"
    by (rule all_processed_Exhausted)
  then show "all_processed g (bar_moved (current_batch_size a s) t) \<and>
             consistent g (bar_moved (current_batch_size a s) t)"
    by (simp add: all_processed_consistent)
qed

lemma fetch_trace_consistent: "t \<in> set (fetch_trace a g) \<Longrightarrow> consistent g t"
  using batches_trace_consistent [OF all_processed_initial, of a g]
    all_processed_consistent [OF all_processed_initial, of g a]
  by (auto simp: fetch_trace_def split: sum.splits)

lemma consistent_rows:
  assumes "consistent g t" and "row \<in> set (article_data t)"
  shows "\<exists>article \<in> set (fetched_articles g t). \<exists>author \<in> set (find_all ''Author'' article).
           row = author_row article author"
proof -
  from assms(1) obtain k where
    "article_data t = concat (map article_rows (take k (fetched_articles g t)))"
    by (auto simp: consistent_def)
  with assms(2) obtain article where "article \<in> set (take k (fetched_articles g t))"
    and "row \<in> set (article_rows article)"
    by auto
  then have "article \<in> set (fetched_articles g t)"
    and "\<exists>author \<in> set (find_all ''Author'' article). row = author_row article author"
    by (auto simp: article_rows_def dest: in_set_takeD)
  then show ?thesis by blast
qed

lemma all_processed_Returned:
  assumes "\<not> dry_run a" and "all_processed g s0"
  shows "\<forall>s. batches a g offs s0 = Returned s \<longrightarrow> \<not> limit_reached a s \<longrightarrow> all_processed g s"
proof (rule batches_outcome [where I = "\<lambda>offs s. all_processed g s"
      and Q = "\<lambda>out. \<forall>s. out = Returned s \<longrightarrow> \<not> limit_reached a s \<longrightarrow> all_processed g s"])
  show "all_processed g s0" by (rule assms(2))
next
  fix r rest s t
  assume "all_processed g s"
    and "process_articles a (window_articles a g r s) (request_sent a r s) = Exhausted t"
  then show "all_processed g (bar_moved (current_batch_size a s) t)"
    by (rule all_processed_Exhausted)
next
  fix r rest s e
  show "\<forall>s'. Raised e (request_sent a r s) = Returned s' \<longrightarrow> \<not> limit_reached a s'
          \<longrightarrow> all_processed g s'"
    by simp
next
  fix r rest s t
  assume "process_articles a (window_articles a g r s) (request_sent a r s) = Return t"
  then have "preview_reached a t \<or> limit_reached a t"
    using process_articles_Return by blast
  with assms(1) have "limit_reached a t" by (simp add: preview_reached_def)
  then show "\<forall>s'. Returned t = Returned s' \<longrightarrow> \<not> limit_reached a s' \<longrightarrow> all_processed g s'"
    by simp
next
  fix s
  assume "all_processed g s"
  then show "\<forall>s'. Returned s = Returned s' \<longrightarrow> \<not> limit_reached a s' \<longrightarrow> all_processed g s'"
    by simp
qed

lemma length_concat_rows:
  "length (concat (map article_rows xs)) = sum_list (map (\<lambda>x. length (find_all ''Author'' x)) xs)"
  by (induction xs) (simp_all add: length_article_rows)

section \<open>The example inputs evaluated\<close>

lemma example_args_fields [simp]:
  "total_records (example_args n l d) = n"
  "record_limit (example_args n l d) = l"
  "batch_size (example_args n l d) = 500"
  "dry_run (example_args n l d) = d"
  by (simp_all add: example_args_def)

lemma find_all_Tag:
  "find_all n (Tag m cs) = concat (map (\<lambda>c. (if named n c then [c] else []) @ find_all n c) cs)"
  by (induction cs) (simp_all add: find_all_def)

lemma find_all_replicate:
  "find_all n (Tag m (c # replicate k x))
   = ((if named n c then [c] else []) @ find_all n c)
     @ concat (replicate k ((if named n x then [x] else []) @ find_all n x))"
  by (simp add: find_all_Tag)

lemma find_all_example_author:
  "find_all ''Author'' example_author = []"
  "find_all ''PubmedArticle'' example_author = []"
  by (simp_all add: find_all_Tag example_author_def) (simp_all add: find_all_def)

lemma concat_replicate_single: "concat (replicate k [x]) = replicate k x"
  by (induction k) simp_all

lemma concat_replicate_Nil: "concat (replicate k []) = []"
  by (induction k) simp_all

lemma find_all_article_with:
  "find_all ''Author'' (article_with k) = replicate k example_author"
  "find_all ''PubmedArticle'' (article_with k) = []"
proof -
  have pmid: "find_all n (Tag ''PMID'' [NavigableString ''7'']) = []" for n
    by (simp add: find_all_def)
  have "named ''Author'' example_author" "\<not> named ''PubmedArticle'' example_author"
    by (simp_all add: example_author_def)
  then show "find_all ''Author'' (article_with k) = replicate k example_author"
    "find_all ''PubmedArticle'' (article_with k) = []"
    unfolding article_with_def find_all_replicate
    by (simp_all add: pmid find_all_example_author concat_replicate_single concat_replicate_Nil)
qed

lemma named_article_with [simp]: "named ''PubmedArticle'' (article_with k)"
  by (simp add: article_with_def)

lemma length_rows_article_with [simp]: "length (article_rows (article_with k)) = k"
  by (simp add: length_article_rows find_all_article_with)

lemma find_all_articles:
  assumes "\<forall>x \<in> set xs. named ''PubmedArticle'' x \<and> find_all ''PubmedArticle'' x = []"
  shows "find_all ''PubmedArticle'' (Tag m xs) = xs"
  using assms by (induction xs) (simp_all add: find_all_Tag)

lemma window_fixed_payload:
  assumes "\<forall>x \<in> set xs. named ''PubmedArticle'' x \<and> find_all ''PubmedArticle'' x = []"
  shows "window_articles a (fixed_payload xs) r s = xs"
  using find_all_articles [OF assms]
  by (simp add: window_articles_def payload_articles_def fixed_payload_def)

lemma fixed_payload_answers [simp]:
  "fixed_payload xs url params = Inr (Tag ''PubmedArticleSet'' xs)"
  by (simp add: fixed_payload_def)



lemma example_full_run:
  assumes "\<forall>x \<in> set xs. named ''PubmedArticle'' x \<and> find_all ''PubmedArticle'' x = []"
    and "0 < n" and "n \<le> 500"
  shows "fetch_articles_in_batches (example_args n None False) (fixed_payload xs)
         = Returned \<lparr>article_data = concat (map article_rows xs),
              record_count = int (length xs), pbar_n = n,
              requests = [efetch_params (example_args n None False) 0 n],
              stdout = [Found_unique_articles n]\<rparr>"
proof -
  let ?a = "example_args n None False"
  have target: "total_to_retrieve ?a = n"
    by (simp add: total_to_retrieve_def)
  have cbs: "current_batch_size ?a (initial_state ?a) = n"
    using assms(3) by (simp add: current_batch_size_def target)
  have "fetch_articles_in_batches ?a (fixed_payload xs)
        = batches ?a (fixed_payload xs) [0] (initial_state ?a)"
    using assms(2,3) by (intro one_window) (simp_all add: target)
  also have "\<dots> = Returned (bar_moved n
      ((request_sent ?a 0 (initial_state ?a))
         \<lparr>article_data := concat (map article_rows xs), record_count := int (length xs)\<rparr>))"
    by (simp add: batches_step window_fixed_payload [OF assms(1)] process_articles_all cbs)
  finally show ?thesis
    by (simp add: bar_moved_def request_sent_def cbs) (simp add: initial_state_def)
qed

lemma example_single_run:
  "fetch_articles_in_batches (example_args 1 None d) (fixed_payload [article_with k])
   = Returned \<lparr>article_data = article_rows (article_with k), record_count = 1, pbar_n = 1,
        requests = [efetch_params (example_args 1 None d) 0 1],
        stdout = [Found_unique_articles 1]\<rparr>"
proof -
  let ?a = "example_args 1 None d"
  have target: "total_to_retrieve ?a = 1"
    by (simp add: total_to_retrieve_def)
  have cbs: "current_batch_size ?a (initial_state ?a) = 1"
    by (simp add: current_batch_size_def target)
  have "fetch_articles_in_batches ?a (fixed_payload [article_with k])
        = batches ?a (fixed_payload [article_with k]) [0] (initial_state ?a)"
    by (intro one_window) (simp_all add: target)
  also have "\<dots> = Returned (bar_moved 1 (processed (article_with k)
                        (request_sent ?a 0 (initial_state ?a))))"
    by (simp add: batches_step window_fixed_payload find_all_article_with
        process_articles_step preview_reached_def limit_reached_def cbs)
  finally show ?thesis
    by (simp add: bar_moved_def request_sent_def processed_def cbs) (simp add: initial_state_def)
qed

lemma rows_article_with_one:
  "article_rows (article_with (Suc 0))
   = [[''7'', ''N/A'', ''N/A'', ''Doe'', ''N/A'', ''N/A'', ''N/A'']]"
  by (simp add: article_rows_def find_all_article_with author_row_def field_or_na_def
      year_or_na_def find_tag_def find_all_Tag article_with_def example_author_def)
     (simp add: find_all_def)

lemma fetched_single:
  "fetched_articles (fixed_payload [article_with k])
     \<lparr>article_data = rows, record_count = n, pbar_n = m,
      requests = [p], stdout = out\<rparr> = [article_with k]"
  using find_all_articles [of "[article_with k]" "''PubmedArticleSet''"]
  by (simp add: fetched_articles_def payload_articles_def find_all_article_with)


section \<open>Per-article processing\<close>

text \<open>
  C6. One turn of the article loop: the preview cap is tested first (and its line is
  printed before the return), then the record limit; otherwise all rows of the article,
  one per author, are appended and the counter goes up by one. Over a whole run, at
  every point the accumulated rows are the complete rows of the first \<open>record_count\<close>
  fetched articles, so no article's author list is ever cut.
\<close>

theorem per_article_order:
  "process_articles a (article # articles) s =
     (if dry_run a \<and> 10 \<le> length (article_data s)
      then Return (s\<lparr>stdout := stdout s @ [Dry_run_processed (length (article_data s))]\<rparr>)
      else if (\<exists>l. record_limit a = Some l \<and> l \<le> record_count s) then Return s
      else process_articles a articles
             (s\<lparr>article_data := article_data s @ article_rows article,
                record_count := record_count s + 1\<rparr>)) \<and>
   length (article_rows article) = length (find_all ''Author'' article) \<and>
   (\<forall>t \<in> set (fetch_trace a g).
      \<exists>k\<le>length (fetched_articles g t).
        record_count t = int k \<and>
        article_data t = concat (map article_rows (take k (fetched_articles g t))))"
proof (intro conjI ballI)
  show "process_articles a (article # articles) s =
     (if dry_run a \<and> 10 \<le> length (article_data s)
      then Return (s\<lparr>stdout := stdout s @ [Dry_run_processed (length (article_data s))]\<rparr>)
      else if (\<exists>l. record_limit a = Some l \<and> l \<le> record_count s) then Return s
      else process_articles a articles
             (s\<lparr>article_data := article_data s @ article_rows article,
                record_count := record_count s + 1\<rparr>))"
    by (simp only: process_articles_step preview_reached_def limit_reached_def processed_def)
  show "length (article_rows article) = length (find_all ''Author'' article)"
    by (rule length_article_rows)
next
  fix t
  assume "t \<in> set (fetch_trace a g)"
  then have "consistent g t" by (rule fetch_trace_consistent)
  then show "\<exists>k\<le>length (fetched_articles g t).
        record_count t = int k \<and>
        article_data t = concat (map article_rows (take k (fetched_articles g t)))"
    by (simp add: consistent_def)
qed

theorem per_article_order_witness:
  "final_state (fetch_articles_in_batches (example_args 1 None False)
      (fixed_payload [article_with 1]))
     \<in> set (fetch_trace (example_args 1 None False) (fixed_payload [article_with 1])) \<and>
   record_count (final_state (fetch_articles_in_batches (example_args 1 None False)
      (fixed_payload [article_with 1]))) = 1 \<and>
   article_data (final_state (fetch_articles_in_batches (example_args 1 None False)
      (fixed_payload [article_with 1])))
     = concat (map article_rows (take 1 (fetched_articles (fixed_payload [article_with 1])
         (final_state (fetch_articles_in_batches (example_args 1 None False)
            (fixed_payload [article_with 1]))))))"
  using per_article_order [of "example_args 1 None False" "article_with 1" "[]"
      "initial_state (example_args 1 None False)" "fixed_payload [article_with 1]"]
    final_state_in_trace [of "example_args 1 None False" "fixed_payload [article_with 1]"]
  by (simp add: example_single_run fetched_single)

section \<open>Shape of the rows\<close>

text \<open>
  C9. Every row in the accumulated output, at every point of a run, is the list of the
  seven values PMID, title, year, last name, fore name, initials, affiliation of one
  author of one fetched article, in this order; it has as many columns as the header.
  What \<open>save_to_csv\<close> writes for the returned rows starts with the header, and every
  row of it has seven columns.
\<close>

theorem rows_have_header_shape:
  "(\<forall>t \<in> set (fetch_trace a g). \<forall>row \<in> set (article_data t).
      length row = length header \<and>
      (\<exists>article \<in> set (fetched_articles g t). \<exists>author \<in> set (find_all ''Author'' article).
         row = [field_or_na ''PMID'' article, field_or_na ''ArticleTitle'' article,
                year_or_na article, field_or_na ''LastName'' author,
                field_or_na ''ForeName'' author, field_or_na ''Initials'' author,
                field_or_na ''Affiliation'' author])) \<and>
   (\<forall>s. fetch_articles_in_batches a g = Returned s \<longrightarrow>
      hd (save_to_csv (article_data s)) = header \<and>
      (\<forall>row \<in> set (save_to_csv (article_data s)). length row = 7))"
proof (intro conjI ballI allI impI)
  fix t row
  assume "t \<in> set (fetch_trace a g)" and "row \<in> set (article_data t)"
  then obtain article author where *: "article \<in> set (fetched_articles g t)"
    "author \<in> set (find_all ''Author'' article)" "row = author_row article author"
    using consistent_rows [OF fetch_trace_consistent] by blast
  from *(3) show "length row = length header"
    by (simp add: length_author_row header_def)
  from * show "\<exists>article \<in> set (fetched_articles g t). \<exists>author \<in> set (find_all ''Author'' article).
         row = [field_or_na ''PMID'' article, field_or_na ''ArticleTitle'' article,
                year_or_na article, field_or_na ''LastName'' author,
                field_or_na ''ForeName'' author, field_or_na ''Initials'' author,
                field_or_na ''Affiliation'' author]"
    unfolding author_row_def by blast
next
  fix s
  assume "fetch_articles_in_batches a g = Returned s"
  show "hd (save_to_csv (article_data s)) = header" by (simp add: save_to_csv_def)
next
  fix s row
  assume ret: "fetch_articles_in_batches a g = Returned s"
    and row: "row \<in> set (save_to_csv (article_data s))"
  from ret have "consistent g s" by (intro fetch_trace_consistent returned_in_trace)
  with row show "length row = 7"
    by (auto simp: save_to_csv_def header_def length_author_row dest!: consistent_rows)
qed

theorem rows_have_header_shape_witness:
  "fetch_articles_in_batches (example_args 1 None False) (fixed_payload [article_with 1])
   = Returned \<lparr>article_data = [[''7'', ''N/A'', ''N/A'', ''Doe'', ''N/A'', ''N/A'', ''N/A'']],
        record_count = 1, pbar_n = 1,
        requests = [efetch_params (example_args 1 None False) 0 1],
        stdout = [Found_unique_articles 1]\<rparr> \<and>
   save_to_csv [[''7'', ''N/A'', ''N/A'', ''Doe'', ''N/A'', ''N/A'', ''N/A'']]
   = [header, [''7'', ''N/A'', ''N/A'', ''Doe'', ''N/A'', ''N/A'', ''N/A'']] \<and>
   length (last (save_to_csv [[''7'', ''N/A'', ''N/A'', ''Doe'', ''N/A'', ''N/A'', ''N/A'']])) = 7
   \<and> length header = 7"
  using rows_have_header_shape [of "example_args 1 None False" "fixed_payload [article_with 1]"]
  by (simp add: example_single_run rows_article_with_one save_to_csv_def header_def)

section \<open>Row count\<close>

text \<open>
  C3. When the call returns, the rows returned are the complete rows of the articles it
  has processed, which are the first \<open>record_count\<close> of the fetched articles: the number
  of rows is the sum of their author counts. Without dry-run, and with the counter below
  the record limit at the end (or with no limit), every fetched article has been
  processed, so the row count is the sum over all fetched articles and the counter is
  their number: an article without authors adds no row and still counts.
\<close>

theorem row_count_is_author_sum:
  assumes "fetch_articles_in_batches a g = Returned s"
  shows "length (article_data s)
           = sum_list (map (\<lambda>x. length (find_all ''Author'' x))
                         (take (nat (record_count s)) (fetched_articles g s))) \<and>
         0 \<le> record_count s \<and> nat (record_count s) \<le> length (fetched_articles g s) \<and>
         (\<not> dry_run a \<and>
          (record_limit a = None \<or> (\<exists>l. record_limit a = Some l \<and> record_count s < l))
          \<longrightarrow> record_count s = int (length (fetched_articles g s)) \<and>
              article_data s = concat (map article_rows (fetched_articles g s)) \<and>
              length (article_data s)
                = sum_list (map (\<lambda>x. length (find_all ''Author'' x)) (fetched_articles g s)))"
proof (intro conjI impI)
  from assms have "consistent g s" by (intro fetch_trace_consistent returned_in_trace)
  then obtain k where k: "k \<le> length (fetched_articles g s)" "record_count s = int k"
    and data: "article_data s = concat (map article_rows (take k (fetched_articles g s)))"
    unfolding consistent_def by blast
  from k show "0 \<le> record_count s" and "nat (record_count s) \<le> length (fetched_articles g s)"
    by simp_all
  from k data show "length (article_data s)
           = sum_list (map (\<lambda>x. length (find_all ''Author'' x))
                         (take (nat (record_count s)) (fetched_articles g s)))"
    by (simp add: length_concat_rows)
next
  assume run: "\<not> dry_run a \<and>
          (record_limit a = None \<or> (\<exists>l. record_limit a = Some l \<and> record_count s < l))"
  then have no_limit: "\<not> limit_reached a s"
    by (auto simp: limit_reached_def)
  from assms obtain offs where "batches a g offs (initial_state a) = Returned s"
    by (auto simp: fetch_articles_in_batches_def split: sum.splits)
  with all_processed_Returned [OF _ all_processed_initial, where offs = offs and g = g and a = a]
    no_limit run
  have all: "all_processed g s" by simp
  then show "record_count s = int (length (fetched_articles g s))"
    and "article_data s = concat (map article_rows (fetched_articles g s))"
    and "length (article_data s)
           = sum_list (map (\<lambda>x. length (find_all ''Author'' x)) (fetched_articles g s))"
    by (simp_all add: all_processed_def length_concat_rows)
qed

text \<open>Two articles, the first with two authors and the second with none: two rows, two articles.\<close>

theorem row_count_is_author_sum_witness:
  "\<not> dry_run (example_args 2 None False) \<and>
   record_limit (example_args 2 None False) = None \<and>
   fetch_articles_in_batches (example_args 2 None False)
       (fixed_payload [article_with 2, article_with 0])
     = Returned \<lparr>article_data = article_rows (article_with 2), record_count = 2, pbar_n = 2,
          requests = [efetch_params (example_args 2 None False) 0 2],
          stdout = [Found_unique_articles 2]\<rparr> \<and>
   length (article_rows (article_with 2)) = 2"
proof -
  let ?xs = "[article_with 2, article_with 0]"
  let ?s = "\<lparr>article_data = article_rows (article_with 2), record_count = 2, pbar_n = 2,
          requests = [efetch_params (example_args 2 None False) 0 2],
          stdout = [Found_unique_articles 2]\<rparr>"
  have none: "article_rows (article_with 0) = []"
    using length_rows_article_with [of 0] by (simp del: length_rows_article_with)
  have run: "fetch_articles_in_batches (example_args 2 None False) (fixed_payload ?xs) = Returned ?s"
    using example_full_run [of ?xs 2] by (simp add: find_all_article_with none)
  from row_count_is_author_sum [of "example_args 2 None False" "fixed_payload ?xs" ?s] run
  show ?thesis by simp
qed

section \<open>A record limit of zero\<close>

lemma zero_limit_trace:
  assumes "record_limit a = Some 0"
  shows "\<forall>t \<in> set (fetch_trace a g). article_data t = [] \<and> record_count t = 0"
proof -
  let ?P = "\<lambda>t::retrieval_state. article_data t = [] \<and> record_count t = 0"
  have stuck: "limit_reached a s \<and> \<not> preview_reached a s" if "?P s" for s
    using that assms by (simp add: limit_reached_def preview_reached_def)
  have "\<forall>t \<in> set (batches_trace a g offs (initial_state a)). ?P t" for offs
  proof (rule batches_trace_invariant [where I = "\<lambda>offs. ?P"])
    show "?P (initial_state a)" by simp
  next
    fix r rest s t
    assume "?P s"
    then have sent: "?P (request_sent a r s)" by simp
    from stuck [OF this]
    have "process_articles_trace a (window_articles a g r s) (request_sent a r s) = []"
      by (simp add: limit_reached_loop)
    moreover assume "t = request_sent a r s \<or>
         t \<in> set (process_articles_trace a (window_articles a g r s) (request_sent a r s))"
    ultimately show "?P t" using sent by auto
  next
    fix r rest s t
    assume "?P s"
    then have sent: "?P (request_sent a r s)" by simp
    from stuck [OF this]
    have "process_articles a (window_articles a g r s) (request_sent a r s)
          = (if window_articles a g r s = [] then Exhausted (request_sent a r s)
             else Return (request_sent a r s))"
      by (simp add: limit_reached_loop)
    moreover assume "process_articles a (window_articles a g r s) (request_sent a r s) = Exhausted t"
    ultimately have "t = request_sent a r s" by (simp split: if_splits)
    with \<open>?P s\<close> show "?P (bar_moved (current_batch_size a s) t)
        \<and> ?P (bar_moved (current_batch_size a s) t)"
      by simp
  qed
  then show ?thesis
    by (auto simp: fetch_trace_def split: sum.splits)
qed

lemma requests_grow_final:
  "\<exists>more. requests (final_state (batches a g offs s)) = requests s @ more"
proof (rule batches_outcome
    [where I = "\<lambda>offs (s'::retrieval_state). \<exists>more. requests s' = requests s @ more"
       and Q = "\<lambda>out. \<exists>more. requests (final_state out) = requests s @ more"])
  show "\<exists>more. requests s = requests s @ more" by simp
next
  fix r rest t and s' :: retrieval_state
  assume "\<exists>more. requests s' = requests s @ more"
    and "process_articles a (window_articles a g r s') (request_sent a r s') = Exhausted t"
  then show "\<exists>more. requests (bar_moved (current_batch_size a s') t) = requests s @ more"
    by (auto simp: process_articles_Exhausted_frame)
next
  fix r rest e and s' :: retrieval_state
  assume "\<exists>more. requests s' = requests s @ more"
  then show "\<exists>more. requests (final_state (Raised e (request_sent a r s'))) = requests s @ more"
    by auto
next
  fix r rest t and s' :: retrieval_state
  assume "\<exists>more. requests s' = requests s @ more"
    and "process_articles a (window_articles a g r s') (request_sent a r s') = Return t"
  then show "\<exists>more. requests (final_state (Returned t)) = requests s @ more"
    by (auto simp: process_articles_Return_frame)
next
  fix s' :: retrieval_state
  assume "\<exists>more. requests s' = requests s @ more"
  then show "\<exists>more. requests (final_state (Returned s')) = requests s @ more" by simp
qed

lemma first_request:
  "\<exists>more. requests (final_state (batches a g (r # rest) s))
     = requests s @ efetch_params a r (current_batch_size a s) # more"
proof (cases "g efetch_url (efetch_params a r (current_batch_size a s))")
  case (Inl e)
  then show ?thesis by (simp add: batches_step)
next
  case (Inr soup)
  show ?thesis
  proof (cases "process_articles a (window_articles a g r s) (request_sent a r s)")
    case (Return t)
    with Inr show ?thesis by (simp add: batches_step process_articles_Return_frame)
  next
    case (Raise e t)
    then show ?thesis by (simp add: process_articles_never_raises)
  next
    case (Exhausted t)
    with Inr requests_grow_final [of a g rest "bar_moved (current_batch_size a s) t"]
    show ?thesis by (simp add: batches_step process_articles_Exhausted_frame)
  qed
qed

lemma zero_limit_returns:
  assumes "record_limit a = Some 0" and "0 < total_records a" and "0 < batch_size a"
    and "g efetch_url (efetch_params a 0 (min (batch_size a) (total_records a))) = Inr soup"
    and "find_all ''PubmedArticle'' soup \<noteq> []"
  shows "fetch_articles_in_batches a g
         = Returned ((initial_state a)\<lparr>requests :=
                       [efetch_params a 0 (min (batch_size a) (total_records a))]\<rparr>)"
proof -
  let ?rest = "range_up (batch_size a) (total_records a) (batch_size a)"
  let ?s1 = "request_sent a 0 (initial_state a)"
  have target: "total_to_retrieve a = total_records a"
    using assms(1) by (simp add: total_to_retrieve_def)
  have cbs: "current_batch_size a (initial_state a) = min (batch_size a) (total_records a)"
    by (simp add: current_batch_size_def target)
  have run: "fetch_articles_in_batches a g = batches a g (0 # ?rest) (initial_state a)"
    using assms(2,3) range_up_Cons [of "batch_size a" 0 "total_records a"]
    by (simp add: fetch_articles_in_batches_def py_range_def target)
  have "limit_reached a ?s1 \<and> \<not> preview_reached a ?s1"
    using assms(1) by (simp add: limit_reached_def preview_reached_def)
  moreover have "window_articles a g 0 (initial_state a) \<noteq> []"
    using assms(4,5) by (simp add: window_articles_def payload_articles_def cbs)
  ultimately have "process_articles a (window_articles a g 0 (initial_state a)) ?s1 = Return ?s1"
    by (simp add: limit_reached_loop)
  with assms(4) have "fetch_articles_in_batches a g = Returned ?s1"
    by (simp add: run batches_step cbs)
  then show ?thesis unfolding request_sent_def cbs by (simp add: initial_state_def)
qed

text \<open>
  C10. With a record limit of 0, a positive total and a positive batch size: the target
  is the total, as if no limit were given; no article is ever processed and no row is
  ever accumulated; the first request, for \<open>min batch_size total_records\<close> articles at
  offset 0, is sent all the same; and when it is answered with at least one article the
  call returns there, with no row and this one request.
\<close>

theorem zero_limit_still_fetches:
  assumes "record_limit a = Some 0" and "0 < total_records a" and "0 < batch_size a"
  shows "total_to_retrieve a = total_records a \<and>
         (\<forall>t \<in> set (fetch_trace a g). article_data t = [] \<and> record_count t = 0) \<and>
         (\<exists>more. requests (final_state (fetch_articles_in_batches a g))
                  = efetch_params a 0 (min (batch_size a) (total_records a)) # more) \<and>
         (\<forall>soup. g efetch_url (efetch_params a 0 (min (batch_size a) (total_records a))) = Inr soup
                  \<and> find_all ''PubmedArticle'' soup \<noteq> [] \<longrightarrow>
            fetch_articles_in_batches a g
            = Returned ((initial_state a)\<lparr>requests :=
                          [efetch_params a 0 (min (batch_size a) (total_records a))]\<rparr>))"
proof -
  let ?p = "efetch_params a 0 (min (batch_size a) (total_records a))"
  let ?rest = "range_up (batch_size a) (total_records a) (batch_size a)"
  have target: "total_to_retrieve a = total_records a"
    using assms(1) by (simp add: total_to_retrieve_def)
  have cbs: "current_batch_size a (initial_state a) = min (batch_size a) (total_records a)"
    by (simp add: current_batch_size_def target)
  have run: "fetch_articles_in_batches a g = batches a g (0 # ?rest) (initial_state a)"
    using assms(2,3) range_up_Cons [of "batch_size a" 0 "total_records a"]
    by (simp add: fetch_articles_in_batches_def py_range_def target)
  have first: "\<exists>more. requests (final_state (fetch_articles_in_batches a g)) = ?p # more"
    using first_request [of a g 0 ?rest "initial_state a"]
    unfolding run cbs by simp
  have stops: "fetch_articles_in_batches a g = Returned ((initial_state a)\<lparr>requests := [?p]\<rparr>)"
    if "g efetch_url ?p = Inr soup" and "find_all ''PubmedArticle'' soup \<noteq> []" for soup
    using assms that by (rule zero_limit_returns)
  from target zero_limit_trace [OF assms(1)] first stops show ?thesis by blast
qed

theorem zero_limit_still_fetches_witness:
  "record_limit (example_args 3 (Some 0) False) = Some 0 \<and>
   0 < total_records (example_args 3 (Some 0) False) \<and>
   0 < batch_size (example_args 3 (Some 0) False) \<and>
   total_to_retrieve (example_args 3 (Some 0) False) = 3 \<and>
   fetch_articles_in_batches (example_args 3 (Some 0) False) (fixed_payload [article_with 1])
   = Returned \<lparr>article_data = [], record_count = 0, pbar_n = 0,
        requests = [efetch_params (example_args 3 (Some 0) False) 0 3],
        stdout = [Found_unique_articles 3]\<rparr>"
proof -
  let ?a = "example_args 3 (Some 0) False"
  have "find_all ''PubmedArticle'' (Tag ''PubmedArticleSet'' [article_with 1]) \<noteq> []"
    using find_all_articles [of "[article_with 1]" "''PubmedArticleSet''"]
    by (simp add: find_all_article_with)
  with zero_limit_still_fetches [of ?a "fixed_payload [article_with 1]"]
  show ?thesis by (simp add: initial_state_def)
qed


section \<open>Bounds on the article counter\<close>

lemma process_articles_Exhausted_in_trace:
  assumes "process_articles a xs s = Exhausted t"
  shows "t = s \<or> t \<in> set (process_articles_trace a xs s)"
proof -
  have "t = last (s # process_articles_trace a xs s)"
    using process_articles_last [of a xs s] assms by simp
  then show ?thesis
    by (cases "process_articles_trace a xs s = []") auto
qed

lemma in_fetch_trace:
  assumes "t \<in> set (fetch_trace a g)"
  obtains "t = initial_state a"
  | offs where "py_range 0 (total_to_retrieve a) (batch_size a) = Inr offs"
      and "t \<in> set (batches_trace a g offs (initial_state a))"
proof (cases "py_range 0 (total_to_retrieve a) (batch_size a)")
  case (Inl e)
  with assms have "t = initial_state a" by (simp add: fetch_trace_def)
  then show ?thesis by (rule that(1))
next
  case (Inr offs)
  with assms have "t = initial_state a \<or> t \<in> set (batches_trace a g offs (initial_state a))"
    by (simp add: fetch_trace_def)
  with Inr show ?thesis using that by blast
qed

lemma limit_bound_loop:
  assumes "record_limit a = Some l"
  shows "record_count s \<le> l \<Longrightarrow> t \<in> set (process_articles_trace a xs s) \<Longrightarrow> record_count t \<le> l"
proof (induction xs arbitrary: s)
  case Nil
  then show ?case by simp
next
  case (Cons x xs)
  show ?case
  proof (cases "preview_reached a s \<or> limit_reached a s")
    case True
    with Cons.prems show ?thesis
      by (auto simp: process_articles_trace_step split: if_splits)
  next
    case False
    with assms have below: "record_count (processed x s) \<le> l"
      by (simp add: limit_reached_def)
    from False Cons.prems(2)
    have "t = processed x s \<or> t \<in> set (process_articles_trace a xs (processed x s))"
      by (simp add: process_articles_trace_step)
    with below Cons.IH [OF below] show ?thesis by blast
  qed
qed

lemma limit_bound_trace:
  assumes "record_limit a = Some l" and "0 \<le> l"
  shows "\<forall>t \<in> set (fetch_trace a g). record_count t \<le> l"
proof -
  let ?P = "\<lambda>t::retrieval_state. record_count t \<le> l"
  have "\<forall>t \<in> set (batches_trace a g offs (initial_state a)). ?P t" for offs
  proof (rule batches_trace_invariant [where I = "\<lambda>offs. ?P"])
    show "?P (initial_state a)" using assms(2) by simp
  next
    fix r rest s t
    assume "?P s"
      and "t = request_sent a r s \<or>
           t \<in> set (process_articles_trace a (window_articles a g r s) (request_sent a r s))"
    then show "?P t"
      using limit_bound_loop [OF assms(1), of "request_sent a r s" t] by auto
  next
    fix r rest s t
    assume "?P s"
      and "process_articles a (window_articles a g r s) (request_sent a r s) = Exhausted t"
    then have "?P t"
      using limit_bound_loop [OF assms(1), of "request_sent a r s" t]
        process_articles_Exhausted_in_trace [of a "window_articles a g r s" "request_sent a r s" t]
      by auto
    then show "?P (bar_moved (current_batch_size a s) t) \<and> ?P (bar_moved (current_batch_size a s) t)"
      by simp
  qed
  with assms(2) show ?thesis
    by (auto elim!: in_fetch_trace)
qed

lemma window_at_most:
  assumes "\<forall>r n soup. g efetch_url (efetch_params a r n) = Inr soup
             \<longrightarrow> length (find_all ''PubmedArticle'' soup) \<le> nat n"
  shows "length (window_articles a g r s) \<le> nat (current_batch_size a s)"
  using assms by (auto simp: window_articles_def payload_articles_def split: sum.splits)

lemma target_bound_trace:
  assumes at_most: "\<forall>r n soup. g efetch_url (efetch_params a r n) = Inr soup
             \<longrightarrow> length (find_all ''PubmedArticle'' soup) \<le> nat n"
    and target: "0 \<le> total_to_retrieve a"
  shows "\<forall>t \<in> set (fetch_trace a g). record_count t \<le> total_to_retrieve a"
proof -
  let ?P = "\<lambda>t::retrieval_state. record_count t \<le> total_to_retrieve a"
  let ?I = "\<lambda>(offs::int list) (s::retrieval_state).
              record_count s \<le> total_to_retrieve a \<and> (offs = [] \<or> 0 < batch_size a)"
  have window: "record_count t \<le> total_to_retrieve a"
    if I: "?I (r # rest) s" and adv: "advanced (window_articles a g r s) k (request_sent a r s) t"
      and k: "k \<le> length (window_articles a g r s)" for r rest s t k
  proof -
    from I have "0 \<le> current_batch_size a s" by (simp add: current_batch_size_def)
    moreover have "length (window_articles a g r s) \<le> nat (current_batch_size a s)"
      using at_most by (rule window_at_most)
    ultimately have "int k \<le> current_batch_size a s" using k by linarith
    also have "\<dots> \<le> total_to_retrieve a - record_count s"
      by (simp add: current_batch_size_def)
    finally show ?thesis using adv by (simp add: advanced_def)
  qed
  have "\<forall>t \<in> set (batches_trace a g offs (initial_state a)). ?P t"
    if "offs = [] \<or> 0 < batch_size a" for offs
  proof (rule batches_trace_invariant [where I = ?I])
    show "?I offs (initial_state a)" using target that by simp
  next
    fix r rest s t
    assume I: "?I (r # rest) s"
      and "t = request_sent a r s \<or>
           t \<in> set (process_articles_trace a (window_articles a g r s) (request_sent a r s))"
    then show "?P t"
    proof (elim disjE)
      assume "t = request_sent a r s"
      with I show ?thesis by simp
    next
      assume "t \<in> set (process_articles_trace a (window_articles a g r s) (request_sent a r s))"
      then obtain k where "k \<le> length (window_articles a g r s)"
        and "advanced (window_articles a g r s) k (request_sent a r s) t"
        using process_articles_trace_advanced by blast
      with I show ?thesis using window by blast
    qed
  next
    fix r rest s t
    assume I: "?I (r # rest) s"
      and "process_articles a (window_articles a g r s) (request_sent a r s) = Exhausted t"
    then have "advanced (window_articles a g r s) (length (window_articles a g r s))
                 (request_sent a r s) t"
      by (simp add: process_articles_Exhausted)
    with I have "?P t" using window by blast
    with I show "?I rest (bar_moved (current_batch_size a s) t) \<and>
                 ?P (bar_moved (current_batch_size a s) t)"
      by simp
  qed
  moreover have "offs = [] \<or> 0 < batch_size a"
    if "py_range 0 (total_to_retrieve a) (batch_size a) = Inr offs" for offs
    using that target by (auto simp: py_range_def range_down_Nil split: if_splits)
  ultimately show ?thesis using target
    by (auto elim!: in_fetch_trace)
qed

text \<open>
  C5, as the code has it. Whatever the payloads hold, the counter never passes a record
  limit that is set and not negative. It stays within \<open>min total_records record_limit\<close>
  (within \<open>total_records\<close> when no limit is set) at every point of a run when the total
  is not negative and no payload holds more articles than its request asked for.
\<close>

theorem record_count_bounds:
  "(\<forall>l. record_limit a = Some l \<and> 0 \<le> l \<longrightarrow>
      (\<forall>t \<in> set (fetch_trace a g). record_count t \<le> l)) \<and>
   (0 \<le> total_records a \<and> (\<forall>l. record_limit a = Some l \<longrightarrow> 0 \<le> l) \<and>
    (\<forall>r n soup. g efetch_url (efetch_params a r n) = Inr soup
       \<longrightarrow> length (find_all ''PubmedArticle'' soup) \<le> nat n)
    \<longrightarrow> (\<forall>t \<in> set (fetch_trace a g).
           record_count t \<le> (case record_limit a of
                                None \<Rightarrow> total_records a
                              | Some l \<Rightarrow> min (total_records a) l)))"
proof (intro conjI allI impI ballI)
  fix l t
  assume "record_limit a = Some l \<and> 0 \<le> l" and "t \<in> set (fetch_trace a g)"
  then show "record_count t \<le> l" using limit_bound_trace by blast
next
  fix t
  assume hyps: "0 \<le> total_records a \<and> (\<forall>l. record_limit a = Some l \<longrightarrow> 0 \<le> l) \<and>
    (\<forall>r n soup. g efetch_url (efetch_params a r n) = Inr soup
       \<longrightarrow> length (find_all ''PubmedArticle'' soup) \<le> nat n)"
    and t: "t \<in> set (fetch_trace a g)"
  then have target: "0 \<le> total_to_retrieve a"
    by (auto simp: total_to_retrieve_def split: option.splits)
  with hyps t have by_target: "record_count t \<le> total_to_retrieve a"
    using target_bound_trace by blast
  show "record_count t \<le> (case record_limit a of
                                None \<Rightarrow> total_records a
                              | Some l \<Rightarrow> min (total_records a) l)"
  proof (cases "record_limit a")
    case None
    with by_target show ?thesis by (simp add: total_to_retrieve_def)
  next
    case (Some l)
    with hyps t have "record_count t \<le> l" using limit_bound_trace by blast
    moreover from Some by_target have "l \<noteq> 0 \<Longrightarrow> record_count t \<le> min (total_records a) l"
      by (simp add: total_to_retrieve_def)
    ultimately show ?thesis using Some hyps by (cases "l = 0") auto
  qed
qed

text \<open>
  C5 as stated fails: for a total of 1 and no limit, a payload of two articles is
  processed in full and the counter ends at 2.
\<close>

theorem record_count_exceeds_total:
  "record_limit (example_args 1 None False) = None \<and>
   total_records (example_args 1 None False) = 1 \<and>
   fetch_articles_in_batches (example_args 1 None False)
      (fixed_payload [article_with 0, article_with 0])
   = Returned \<lparr>article_data = [], record_count = 2, pbar_n = 1,
        requests = [efetch_params (example_args 1 None False) 0 1],
        stdout = [Found_unique_articles 1]\<rparr> \<and>
   \<not> record_count (final_state
         (fetch_articles_in_batches (example_args 1 None False)
            (fixed_payload [article_with 0, article_with 0])))
       \<le> total_records (example_args 1 None False)"
proof -
  have none: "article_rows (article_with 0) = []"
    using length_rows_article_with [of 0] by (simp del: length_rows_article_with)
  show ?thesis
    using example_full_run [of "[article_with 0, article_with 0]" 1]
    by (simp add: find_all_article_with none)
qed


lemma counting_payload_answers:
  "counting_payload x efetch_url (efetch_params a r n)
   = Inr (Tag ''PubmedArticleSet'' (replicate (nat n) x))"
  by (simp add: counting_payload_def efetch_params_def)

lemma find_all_counting:
  "find_all ''PubmedArticle'' (Tag m (replicate k (article_with j))) = replicate k (article_with j)"
  by (rule find_all_articles) (simp add: find_all_article_with)

lemma counting_exact:
  "\<forall>r n. 0 \<le> n \<longrightarrow>
     (\<exists>soup. counting_payload (article_with j) efetch_url (efetch_params a r n) = Inr soup \<and>
             length (find_all ''PubmedArticle'' soup) = nat n)"
  by (simp add: counting_payload_answers find_all_counting)

lemma counting_at_most:
  "\<forall>r n soup. counting_payload (article_with j) efetch_url (efetch_params a r n) = Inr soup
     \<longrightarrow> length (find_all ''PubmedArticle'' soup) \<le> nat n"
  by (auto simp: counting_payload_answers find_all_counting)

lemma window_counting:
  "window_articles a (counting_payload (article_with j)) r s
   = replicate (nat (current_batch_size a s)) (article_with j)"
  by (simp add: window_articles_def payload_articles_def counting_payload_answers find_all_counting)

text \<open>A total of 1, a limit of 1, and an endpoint that sends what it is asked for.\<close>

theorem record_count_bounds_witness:
  "0 \<le> total_records (example_args 1 (Some 1) False) \<and>
   record_limit (example_args 1 (Some 1) False) = Some 1 \<and>
   final_state (fetch_articles_in_batches (example_args 1 (Some 1) False)
                  (counting_payload (article_with 1)))
     \<in> set (fetch_trace (example_args 1 (Some 1) False) (counting_payload (article_with 1))) \<and>
   record_count (final_state (fetch_articles_in_batches (example_args 1 (Some 1) False)
                  (counting_payload (article_with 1))))
     \<le> min (total_records (example_args 1 (Some 1) False)) 1"
  using record_count_bounds [of "example_args 1 (Some 1) False" "counting_payload (article_with 1)"]
    counting_at_most [of 1 "example_args 1 (Some 1) False"]
    final_state_in_trace [of "example_args 1 (Some 1) False" "counting_payload (article_with 1)"]
  by simp

section \<open>Number of articles processed\<close>

lemma range_up_ConsD:
  assumes "range_up r stop step = r0 # rest"
  shows "r0 = r \<and> r < stop \<and> 0 < step \<and> rest = range_up (r + step) stop step"
  using assms by (subst (asm) range_up.simps) (auto split: if_splits)

lemma range_up_NilD:
  assumes "range_up r stop step = []" and "0 < step"
  shows "stop \<le> r"
  using assms by (subst (asm) range_up.simps) (simp split: if_splits)

lemma window_exact:
  assumes "\<forall>r n. 0 \<le> n \<longrightarrow>
     (\<exists>soup. g efetch_url (efetch_params a r n) = Inr soup \<and>
             length (find_all ''PubmedArticle'' soup) = nat n)"
    and "0 \<le> current_batch_size a s"
  shows "length (window_articles a g r s) = nat (current_batch_size a s)"
    and "\<exists>soup. g efetch_url (efetch_params a r (current_batch_size a s)) = Inr soup"
proof -
  from assms obtain soup where
    "g efetch_url (efetch_params a r (current_batch_size a s)) = Inr soup"
    "length (find_all ''PubmedArticle'' soup) = nat (current_batch_size a s)"
    by blast
  then show "length (window_articles a g r s) = nat (current_batch_size a s)"
    and "\<exists>soup. g efetch_url (efetch_params a r (current_batch_size a s)) = Inr soup"
    by (simp_all add: window_articles_def payload_articles_def)
qed

lemma exact_window:
  assumes no_dry: "\<not> dry_run a" and bs: "0 < batch_size a"
    and exact: "\<forall>r n. 0 \<le> n \<longrightarrow>
       (\<exists>soup. g efetch_url (efetch_params a r n) = Inr soup \<and>
               length (find_all ''PubmedArticle'' soup) = nat n)"
    and limit: "record_limit a = None \<or> (\<exists>l. record_limit a = Some l \<and> total_to_retrieve a \<le> l)"
    and offs: "r # rest = range_up r0 (total_to_retrieve a) (batch_size a)"
    and start: "record_count s = min r0 (total_to_retrieve a)"
  shows "rest = range_up (r + batch_size a) (total_to_retrieve a) (batch_size a)"
    and "record_count s = r"
    and "0 < current_batch_size a s"
    and "r + current_batch_size a s = min (r + batch_size a) (total_to_retrieve a)"
    and "\<exists>t. process_articles a (window_articles a g r s) (request_sent a r s) = Exhausted t \<and>
             record_count t = r + current_batch_size a s \<and> pbar_n t = pbar_n s"
    and "\<exists>soup. g efetch_url (efetch_params a r (current_batch_size a s)) = Inr soup"
proof -
  from offs have r: "r = r0" "r < total_to_retrieve a"
    and rest: "rest = range_up (r + batch_size a) (total_to_retrieve a) (batch_size a)"
    using range_up_ConsD [of r0 "total_to_retrieve a" "batch_size a" r rest] by simp_all
  with start have rc: "record_count s = r" by simp
  with r bs have cbs: "0 < current_batch_size a s"
    "r + current_batch_size a s = min (r + batch_size a) (total_to_retrieve a)"
    by (simp_all add: current_batch_size_def)
  then have len: "length (window_articles a g r s) = nat (current_batch_size a s)"
    and answer: "\<exists>soup. g efetch_url (efetch_params a r (current_batch_size a s)) = Inr soup"
    using window_exact [where g = g and a = a and s = s and r = r, OF exact] by simp_all
  have "current_batch_size a s \<le> total_to_retrieve a - record_count s"
    by (simp add: current_batch_size_def)
  with limit cbs rc len
  have "record_limit a = None \<or>
    (\<exists>l. record_limit a = Some l \<and>
         record_count (request_sent a r s) + int (length (window_articles a g r s)) \<le> l)"
    by auto
  from process_articles_all [OF no_dry this] len cbs rc
  have "\<exists>t. process_articles a (window_articles a g r s) (request_sent a r s) = Exhausted t \<and>
             record_count t = r + current_batch_size a s \<and> pbar_n t = pbar_n s"
    by simp
  with rest rc cbs answer
  show "rest = range_up (r + batch_size a) (total_to_retrieve a) (batch_size a)"
    and "record_count s = r"
    and "0 < current_batch_size a s"
    and "r + current_batch_size a s = min (r + batch_size a) (total_to_retrieve a)"
    and "\<exists>t. process_articles a (window_articles a g r s) (request_sent a r s) = Exhausted t \<and>
             record_count t = r + current_batch_size a s \<and> pbar_n t = pbar_n s"
    and "\<exists>soup. g efetch_url (efetch_params a r (current_batch_size a s)) = Inr soup"
    by simp_all
qed

lemma exact_run:
  assumes no_dry: "\<not> dry_run a" and bs: "0 < batch_size a"
    and exact: "\<forall>r n. 0 \<le> n \<longrightarrow>
       (\<exists>soup. g efetch_url (efetch_params a r n) = Inr soup \<and>
               length (find_all ''PubmedArticle'' soup) = nat n)"
    and limit: "record_limit a = None \<or> (\<exists>l. record_limit a = Some l \<and> total_to_retrieve a \<le> l)"
    and start: "record_count s = min r (total_to_retrieve a)"
  shows "\<exists>s'. batches a g (range_up r (total_to_retrieve a) (batch_size a)) s = Returned s' \<and>
              record_count s' = total_to_retrieve a"
proof -
  let ?target = "total_to_retrieve a"
  let ?I = "\<lambda>offs (s::retrieval_state).
              \<exists>r. offs = range_up r ?target (batch_size a) \<and> record_count s = min r ?target"
  let ?Q = "\<lambda>out. \<exists>s'. out = Returned s' \<and> record_count s' = ?target"
  note window = exact_window [where g = g and a = a, OF no_dry bs exact limit]
  show ?thesis
  proof (rule batches_outcome [where I = ?I and Q = ?Q])
    show "?I (range_up r ?target (batch_size a)) s" using start by blast
  next
    fix r0 rest t and s :: retrieval_state
    assume "?I (r0 # rest) s"
      and ex: "process_articles a (window_articles a g r0 s) (request_sent a r0 s) = Exhausted t"
    then obtain r where *: "r0 # rest = range_up r ?target (batch_size a)"
      "record_count s = min r ?target" by blast
    from window(5) [OF *] ex have "record_count t = r0 + current_batch_size a s" by auto
    with window(1) [OF *] window(4) [OF *]
    have "rest = range_up (r0 + batch_size a) ?target (batch_size a) \<and>
          record_count (bar_moved (current_batch_size a s) t) = min (r0 + batch_size a) ?target"
      by simp
    then show "?I rest (bar_moved (current_batch_size a s) t)" by blast
  next
    fix r0 rest e and s :: retrieval_state
    assume "?I (r0 # rest) s"
      and failed: "g efetch_url (efetch_params a r0 (current_batch_size a s)) = Inl e"
    then obtain r where *: "r0 # rest = range_up r ?target (batch_size a)"
      "record_count s = min r ?target" by blast
    from window(6) [OF *] failed show "?Q (Raised e (request_sent a r0 s))" by simp
  next
    fix r0 rest t and s :: retrieval_state
    assume "?I (r0 # rest) s"
      and early: "process_articles a (window_articles a g r0 s) (request_sent a r0 s) = Return t"
    then obtain r where *: "r0 # rest = range_up r ?target (batch_size a)"
      "record_count s = min r ?target" by blast
    from window(5) [OF *] early show "?Q (Returned t)" by simp
  next
    fix s :: retrieval_state
    assume "?I [] s"
    then obtain r where "[] = range_up r ?target (batch_size a)" "record_count s = min r ?target"
      by blast
    with range_up_NilD [of r ?target "batch_size a"] bs show "?Q (Returned s)" by simp
  qed
qed


text \<open>
  C2, as the code has it. Without dry-run, with a positive batch size, a total and a
  limit that are not negative, and every request answered with exactly the number of
  articles it asked for, the call returns and has processed \<open>min limit total\<close> articles,
  or \<open>total\<close> articles when no limit is given.
\<close>

theorem processed_count_is_target:
  assumes "\<not> dry_run a" and "0 < batch_size a" and "0 \<le> total_records a"
    and "\<forall>l. record_limit a = Some l \<longrightarrow> 0 \<le> l"
    and exact: "\<forall>r n. 0 \<le> n \<longrightarrow>
       (\<exists>soup. g efetch_url (efetch_params a r n) = Inr soup \<and>
               length (find_all ''PubmedArticle'' soup) = nat n)"
  shows "\<exists>s. fetch_articles_in_batches a g = Returned s \<and>
             record_count s = (case record_limit a of
                                 None \<Rightarrow> total_records a
                               | Some l \<Rightarrow> min l (total_records a))"
proof -
  let ?target = "total_to_retrieve a"
  have run: "fetch_articles_in_batches a g
             = batches a g (range_up 0 ?target (batch_size a)) (initial_state a)"
    using assms(2) by (simp add: fetch_articles_in_batches_def py_range_def)
  have by_target: "\<exists>s. fetch_articles_in_batches a g = Returned s \<and> record_count s = ?target"
    if "record_limit a = None \<or> (\<exists>l. record_limit a = Some l \<and> ?target \<le> l)"
      and "0 \<le> ?target"
    unfolding run using assms(1,2) exact that(1)
    by (rule exact_run) (simp add: that(2))
  show ?thesis
  proof (cases "record_limit a")
    case None
    with by_target assms(3) show ?thesis by (simp add: total_to_retrieve_def)
  next
    case (Some l)
    with assms(4) have l: "0 \<le> l" by simp
    show ?thesis
    proof (cases "l = 0")
      case False
      with Some l assms(3) have "?target = min l (total_records a)" "?target \<le> l" "0 \<le> ?target"
        by (simp_all add: total_to_retrieve_def)
      with by_target Some show ?thesis by simp
    next
      case True
      show ?thesis
      proof (cases "total_records a = 0")
        case True
        with Some \<open>l = 0\<close> have "range_up 0 ?target (batch_size a) = []"
          by (simp add: range_up_Nil total_to_retrieve_def)
        with Some \<open>l = 0\<close> True show ?thesis by (simp add: run)
      next
        case False
        with assms(3) have pos: "0 < total_records a" by simp
        with assms(2) exact obtain soup where
          "g efetch_url (efetch_params a 0 (min (batch_size a) (total_records a))) = Inr soup"
          "length (find_all ''PubmedArticle'' soup) = nat (min (batch_size a) (total_records a))"
          by (metis min_less_iff_conj less_imp_le)
        moreover from this(2) pos assms(2) have "find_all ''PubmedArticle'' soup \<noteq> []"
          by auto
        ultimately show ?thesis
          using zero_limit_returns [of a g soup] Some \<open>l = 0\<close> pos assms(2) by simp
      qed
    qed
  qed
qed

lemma replicate_nat_2: "replicate 2 x = [x, x]"
  by (simp add: numeral_2_eq_2)

text \<open>
  C2 as stated fails in dry-run: with a limit of 2, a total of 5 and two fetched articles
  of ten authors each, the preview cap stops the run after one article.
\<close>

theorem dry_run_stops_short_of_limit:
  "fetch_articles_in_batches (example_args 5 (Some 2) True) (counting_payload (article_with 10))
   = Returned \<lparr>article_data = article_rows (article_with 10), record_count = 1, pbar_n = 0,
        requests = [efetch_params (example_args 5 (Some 2) True) 0 2],
        stdout = [Found_unique_articles 5, Retrieving_up_to 2, Dry_run_processed 10]\<rparr> \<and>
   record_limit (example_args 5 (Some 2) True) = Some 2 \<and>
   total_records (example_args 5 (Some 2) True) = 5 \<and>
   length (payload_articles (counting_payload (article_with 10))
             (efetch_params (example_args 5 (Some 2) True) 0 2)) = 2 \<and>
   record_count (final_state
      (fetch_articles_in_batches (example_args 5 (Some 2) True)
         (counting_payload (article_with 10))))
     \<noteq> min 2 (total_records (example_args 5 (Some 2) True))"
proof -
  let ?a = "example_args 5 (Some 2) True"
  let ?g = "counting_payload (article_with 10)"
  have target: "total_to_retrieve ?a = 2"
    by (simp add: total_to_retrieve_def)
  have cbs: "current_batch_size ?a (initial_state ?a) = 2"
    by (simp add: current_batch_size_def target)
  have "fetch_articles_in_batches ?a ?g = batches ?a ?g [0] (initial_state ?a)"
    by (intro one_window) (simp_all add: target)
  also have "\<dots> = Returned ((processed (article_with 10) (request_sent ?a 0 (initial_state ?a)))
       \<lparr>stdout := stdout (initial_state ?a) @ [Dry_run_processed 10]\<rparr>)"
    by (simp add: batches_step window_counting counting_payload_answers cbs replicate_nat_2
        process_articles_step preview_reached_def limit_reached_def)
  finally have "fetch_articles_in_batches ?a ?g
   = Returned \<lparr>article_data = article_rows (article_with 10), record_count = 1, pbar_n = 0,
        requests = [efetch_params ?a 0 2],
        stdout = [Found_unique_articles 5, Retrieving_up_to 2, Dry_run_processed 10]\<rparr>"
    by (simp add: request_sent_def processed_def cbs) (simp add: initial_state_def)
  moreover have "length (payload_articles ?g (efetch_params ?a 0 2)) = 2"
    by (simp add: payload_articles_def counting_payload_answers find_all_counting)
  ultimately show ?thesis by simp
qed

text \<open>A total of 3 and a limit of 2: two articles are processed.\<close>

theorem processed_count_is_target_witness:
  "\<not> dry_run (example_args 3 (Some 2) False) \<and>
   0 < batch_size (example_args 3 (Some 2) False) \<and>
   0 \<le> total_records (example_args 3 (Some 2) False) \<and>
   record_limit (example_args 3 (Some 2) False) = Some 2 \<and>
   returned_rows (fetch_articles_in_batches (example_args 3 (Some 2) False)
                    (counting_payload (article_with 1))) \<noteq> None \<and>
   record_count (final_state (fetch_articles_in_batches (example_args 3 (Some 2) False)
                    (counting_payload (article_with 1)))) = 2"
  using processed_count_is_target [of "example_args 3 (Some 2) False"
      "counting_payload (article_with 1)"]
    counting_exact [of 1 "example_args 3 (Some 2) False"]
  by auto


section \<open>The progress bar\<close>

lemma sorted_constant: "\<forall>x \<in> set xs. x = c \<Longrightarrow> sorted xs"
  for c :: int
  by (induction xs) auto

lemma batches_trace_bar_sorted:
  assumes start: "I offs s"
    and boundary: "\<And>r rest s t. I (r # rest) s \<Longrightarrow>
          process_articles a (window_articles a g r s) (request_sent a r s) = Exhausted t
          \<Longrightarrow> I rest (bar_moved (current_batch_size a s) t)"
    and nonneg: "\<And>r rest s. I (r # rest) s \<Longrightarrow> 0 \<le> current_batch_size a s"
  shows "sorted (map pbar_n (s # batches_trace a g offs s))"
  using start
proof (induction offs arbitrary: s)
  case Nil
  then show ?case by simp
next
  case (Cons r rest)
  let ?s1 = "request_sent a r s"
  let ?xs = "window_articles a g r s"
  let ?earlier = "s # ?s1 # process_articles_trace a ?xs ?s1"
  have earlier: "\<forall>x \<in> set (map pbar_n ?earlier). x = pbar_n s"
    using process_articles_trace_frame(2) [of _ a ?xs ?s1] by auto
  then have sorted_earlier: "sorted (map pbar_n ?earlier)" by (rule sorted_constant)
  show ?case
  proof (cases "\<exists>soup t. g efetch_url (efetch_params a r (current_batch_size a s)) = Inr soup \<and>
                  process_articles a ?xs ?s1 = Exhausted t")
    case False
    then have "s # batches_trace a g (r # rest) s = ?earlier"
      by (auto simp: batches_trace_step split: sum.splits loop_exit.splits)
    with sorted_earlier show ?thesis by simp
  next
    case True
    then obtain soup t where answer: "g efetch_url (efetch_params a r (current_batch_size a s)) = Inr soup"
      and ex: "process_articles a ?xs ?s1 = Exhausted t" by blast
    let ?s3 = "bar_moved (current_batch_size a s) t"
    let ?later = "?s3 # batches_trace a g rest ?s3"
    from answer ex have split: "s # batches_trace a g (r # rest) s = ?earlier @ ?later"
      by (simp add: batches_trace_step)
    from Cons.prems ex have "I rest ?s3" by (rule boundary)
    then have sorted_later: "sorted (map pbar_n ?later)" by (rule Cons.IH)
    have "pbar_n s \<le> pbar_n ?s3"
      using nonneg [OF Cons.prems] process_articles_Exhausted_frame(2) [OF ex] by simp
    with sorted_later have "\<forall>y \<in> set (map pbar_n ?later). pbar_n s \<le> y"
      by auto
    with earlier sorted_earlier sorted_later have "sorted (map pbar_n ?earlier @ map pbar_n ?later)"
      unfolding sorted_append by auto
    then show ?thesis unfolding split by simp
  qed
qed

lemma exact_window_shape:
  assumes bs: "0 < batch_size a"
    and exact: "\<forall>r n. 0 \<le> n \<longrightarrow>
       (\<exists>soup. g efetch_url (efetch_params a r n) = Inr soup \<and>
               length (find_all ''PubmedArticle'' soup) = nat n)"
    and offs: "r # rest = range_up r0 (total_to_retrieve a) (batch_size a)"
    and start: "record_count s = min r0 (total_to_retrieve a)"
  shows "rest = range_up (r + batch_size a) (total_to_retrieve a) (batch_size a)"
    and "record_count s = r"
    and "0 < current_batch_size a s"
    and "r + current_batch_size a s = min (r + batch_size a) (total_to_retrieve a)"
    and "int (length (window_articles a g r s)) = current_batch_size a s"
proof -
  from offs have r: "r = r0" "r < total_to_retrieve a"
    and rest: "rest = range_up (r + batch_size a) (total_to_retrieve a) (batch_size a)"
    using range_up_ConsD [of r0 "total_to_retrieve a" "batch_size a" r rest] by simp_all
  with start have rc: "record_count s = r" by simp
  with r bs have cbs: "0 < current_batch_size a s"
    "r + current_batch_size a s = min (r + batch_size a) (total_to_retrieve a)"
    by (simp_all add: current_batch_size_def)
  then have len: "length (window_articles a g r s) = nat (current_batch_size a s)"
    using window_exact [where g = g and a = a and s = s and r = r, OF exact] by simp_all
  with rest rc cbs
  show "rest = range_up (r + batch_size a) (total_to_retrieve a) (batch_size a)"
    and "record_count s = r"
    and "0 < current_batch_size a s"
    and "r + current_batch_size a s = min (r + batch_size a) (total_to_retrieve a)"
    and "int (length (window_articles a g r s)) = current_batch_size a s"
    by simp_all
qed

lemma in_step_boundary:
  assumes bs: "0 < batch_size a"
    and exact: "\<forall>r n. 0 \<le> n \<longrightarrow>
       (\<exists>soup. g efetch_url (efetch_params a r n) = Inr soup \<and>
               length (find_all ''PubmedArticle'' soup) = nat n)"
    and I: "in_step a (r # rest) s"
    and ex: "process_articles a (window_articles a g r s) (request_sent a r s) = Exhausted t"
  shows "in_step a rest (bar_moved (current_batch_size a s) t)"
proof -
  from I obtain r0 where *: "r # rest = range_up r0 (total_to_retrieve a) (batch_size a)"
    "record_count s = min r0 (total_to_retrieve a)" and bar: "pbar_n s = record_count s"
    unfolding in_step_def by metis
  note shape = exact_window_shape [where g = g and a = a, OF bs exact *]
  from process_articles_Exhausted_frame(2,4) [OF ex] shape(2,4,5) bar
  have "record_count (bar_moved (current_batch_size a s) t)
          = min (r + batch_size a) (total_to_retrieve a)"
    and "pbar_n (bar_moved (current_batch_size a s) t)
          = record_count (bar_moved (current_batch_size a s) t)"
    by simp_all
  with shape(1) show ?thesis unfolding in_step_def by blast
qed

lemma in_step_inside:
  assumes bs: "0 < batch_size a"
    and exact: "\<forall>r n. 0 \<le> n \<longrightarrow>
       (\<exists>soup. g efetch_url (efetch_params a r n) = Inr soup \<and>
               length (find_all ''PubmedArticle'' soup) = nat n)"
    and I: "in_step a (r # rest) s"
    and adv: "advanced (window_articles a g r s) k (request_sent a r s) t"
    and k: "k \<le> length (window_articles a g r s)"
  shows "pbar_n t \<le> record_count t \<and> record_count t \<le> total_to_retrieve a"
proof -
  from I obtain r0 where *: "r # rest = range_up r0 (total_to_retrieve a) (batch_size a)"
    "record_count s = min r0 (total_to_retrieve a)" and bar: "pbar_n s = record_count s"
    unfolding in_step_def by metis
  note shape = exact_window_shape [where g = g and a = a, OF bs exact *]
  from k shape(5) have "int k \<le> current_batch_size a s" by simp
  with shape(2,4) adv bar show ?thesis by (simp add: advanced_def)
qed

lemma exact_trace:
  assumes bs: "0 < batch_size a" and target: "0 \<le> total_to_retrieve a"
    and exact: "\<forall>r n. 0 \<le> n \<longrightarrow>
       (\<exists>soup. g efetch_url (efetch_params a r n) = Inr soup \<and>
               length (find_all ''PubmedArticle'' soup) = nat n)"
  shows "\<forall>t \<in> set (fetch_trace a g).
           pbar_n t \<le> record_count t \<and> record_count t \<le> total_to_retrieve a"
    and "sorted (map pbar_n (fetch_trace a g))"
proof -
  let ?offs = "range_up 0 (total_to_retrieve a) (batch_size a)"
  let ?P = "\<lambda>t::retrieval_state.
              pbar_n t \<le> record_count t \<and> record_count t \<le> total_to_retrieve a"
  have trace: "fetch_trace a g = initial_state a # batches_trace a g ?offs (initial_state a)"
    using bs by (simp add: fetch_trace_def py_range_def)
  have start: "in_step a ?offs (initial_state a)"
    using target unfolding in_step_def by (intro exI [of _ 0]) simp
  have "\<forall>t \<in> set (batches_trace a g ?offs (initial_state a)). ?P t"
  proof (rule batches_trace_invariant [where I = "in_step a"])
    show "in_step a ?offs (initial_state a)" by (rule start)
  next
    fix r rest s t
    assume I: "in_step a (r # rest) s"
      and "t = request_sent a r s \<or>
           t \<in> set (process_articles_trace a (window_articles a g r s) (request_sent a r s))"
    then obtain k where "k \<le> length (window_articles a g r s)"
      and "advanced (window_articles a g r s) k (request_sent a r s) t"
      using process_articles_trace_advanced advanced_refl by (metis le0)
    with in_step_inside [where g = g and a = a, OF bs exact I] show "?P t" by blast
  next
    fix r rest s t
    assume I: "in_step a (r # rest) s"
      and ex: "process_articles a (window_articles a g r s) (request_sent a r s) = Exhausted t"
    with bs exact have "in_step a rest (bar_moved (current_batch_size a s) t)"
      by (rule in_step_boundary [where g = g])
    moreover from in_step_inside [where g = g and a = a, OF bs exact I] process_articles_Exhausted [OF ex]
    have "?P t" by blast
    moreover from this calculation have "?P (bar_moved (current_batch_size a s) t)"
      by (auto simp: in_step_def)
    ultimately show "in_step a rest (bar_moved (current_batch_size a s) t) \<and>
                     ?P (bar_moved (current_batch_size a s) t)"
      by simp
  qed
  with target show "\<forall>t \<in> set (fetch_trace a g). ?P t" by (simp add: trace)
  have "sorted (map pbar_n (initial_state a # batches_trace a g ?offs (initial_state a)))"
  proof (rule batches_trace_bar_sorted [where I = "in_step a"])
    show "in_step a ?offs (initial_state a)" by (rule start)
  next
    fix r rest s t
    assume "in_step a (r # rest) s"
      and "process_articles a (window_articles a g r s) (request_sent a r s) = Exhausted t"
    with bs exact show "in_step a rest (bar_moved (current_batch_size a s) t)"
      by (rule in_step_boundary [where g = g])
  next
    fix r rest s
    assume "in_step a (r # rest) s"
    then obtain r0 where *: "r # rest = range_up r0 (total_to_retrieve a) (batch_size a)"
      "record_count s = min r0 (total_to_retrieve a)"
      unfolding in_step_def by metis
    from exact_window_shape(3) [where g = g and a = a, OF bs exact *]
    show "0 \<le> current_batch_size a s" by simp
  qed
  then show "sorted (map pbar_n (fetch_trace a g))" by (simp only: trace)
qed


text \<open>
  C7, as the code has it. When a window is completed the bar moves by the size that was
  requested for it, \<open>min batch_size (total_to_retrieve - record_count)\<close>, while the article
  counter has moved by the number of articles in the payload. When the batch size is
  positive, the total and the limit are not negative and every request is answered with
  exactly the number of articles it asked for, then at every point of the run the bar is
  at most the article counter, which is at most the retrieval target, and the bar never
  moves back.
\<close>

theorem progress_moves_by_requested_size:
  "(\<forall>r rest s soup t.
      g efetch_url (efetch_params a r (min (batch_size a) (total_to_retrieve a - record_count s)))
        = Inr soup \<and>
      process_articles a (find_all ''PubmedArticle'' soup)
        (s\<lparr>requests := requests s @
            [efetch_params a r (min (batch_size a) (total_to_retrieve a - record_count s))]\<rparr>)
        = Exhausted t
      \<longrightarrow> batches a g (r # rest) s
          = batches a g rest
              (t\<lparr>pbar_n := pbar_n s + min (batch_size a) (total_to_retrieve a - record_count s)\<rparr>)
          \<and> record_count t = record_count s + int (length (find_all ''PubmedArticle'' soup))) \<and>
   (0 < batch_size a \<and> 0 \<le> total_records a \<and> (\<forall>l. record_limit a = Some l \<longrightarrow> 0 \<le> l) \<and>
    (\<forall>r n. 0 \<le> n \<longrightarrow>
       (\<exists>soup. g efetch_url (efetch_params a r n) = Inr soup \<and>
               length (find_all ''PubmedArticle'' soup) = nat n))
    \<longrightarrow> (\<forall>t \<in> set (fetch_trace a g).
           pbar_n t \<le> record_count t \<and> record_count t \<le> total_to_retrieve a) \<and>
        sorted (map pbar_n (fetch_trace a g)))"
proof (intro conjI allI impI)
  fix r rest soup t and s :: retrieval_state
  let ?n = "min (batch_size a) (total_to_retrieve a - record_count s)"
  assume "g efetch_url (efetch_params a r ?n) = Inr soup \<and>
      process_articles a (find_all ''PubmedArticle'' soup)
        (s\<lparr>requests := requests s @ [efetch_params a r ?n]\<rparr>) = Exhausted t"
  then have answer: "g efetch_url (efetch_params a r (current_batch_size a s)) = Inr soup"
    and window: "window_articles a g r s = find_all ''PubmedArticle'' soup"
    and ex: "process_articles a (window_articles a g r s) (request_sent a r s) = Exhausted t"
    by (simp_all add: current_batch_size_def window_articles_def payload_articles_def
        request_sent_def)
  from process_articles_Exhausted_frame(2) [OF ex]
  have "bar_moved (current_batch_size a s) t = t\<lparr>pbar_n := pbar_n s + ?n\<rparr>"
    by (simp add: bar_moved_def current_batch_size_def)
  with answer ex show "batches a g (r # rest) s = batches a g rest (t\<lparr>pbar_n := pbar_n s + ?n\<rparr>)"
    by (simp add: batches_step)
  from process_articles_Exhausted_frame(4) [OF ex] window
  show "record_count t = record_count s + int (length (find_all ''PubmedArticle'' soup))"
    by simp
next
  assume hyps: "0 < batch_size a \<and> 0 \<le> total_records a \<and>
    (\<forall>l. record_limit a = Some l \<longrightarrow> 0 \<le> l) \<and>
    (\<forall>r n. 0 \<le> n \<longrightarrow>
       (\<exists>soup. g efetch_url (efetch_params a r n) = Inr soup \<and>
               length (find_all ''PubmedArticle'' soup) = nat n))"
  then have bs: "0 < batch_size a"
    and exact: "\<forall>r n. 0 \<le> n \<longrightarrow>
       (\<exists>soup. g efetch_url (efetch_params a r n) = Inr soup \<and>
               length (find_all ''PubmedArticle'' soup) = nat n)"
    and target: "0 \<le> total_to_retrieve a"
    by (auto simp: total_to_retrieve_def split: option.splits)
  from bs target exact
  show "\<forall>t \<in> set (fetch_trace a g).
           pbar_n t \<le> record_count t \<and> record_count t \<le> total_to_retrieve a"
    by (rule exact_trace(1) [where g = g and a = a])
  from bs target exact
  show "sorted (map pbar_n (fetch_trace a g))"
    by (rule exact_trace(2) [where g = g and a = a])
qed

text \<open>
  C7 as stated fails: for a total of 3, a payload of two articles completes the window;
  the bar stands at 3 and two articles were processed.
\<close>

theorem progress_differs_from_article_count:
  "fetch_articles_in_batches (example_args 3 None False)
      (fixed_payload [article_with 1, article_with 1])
   = Returned \<lparr>article_data = article_rows (article_with 1) @ article_rows (article_with 1),
        record_count = 2, pbar_n = 3,
        requests = [efetch_params (example_args 3 None False) 0 3],
        stdout = [Found_unique_articles 3]\<rparr> \<and>
   length (payload_articles (fixed_payload [article_with 1, article_with 1])
             (efetch_params (example_args 3 None False) 0 3)) = 2 \<and>
   pbar_n (final_state
      (fetch_articles_in_batches (example_args 3 None False)
         (fixed_payload [article_with 1, article_with 1])))
     \<noteq> int (length (payload_articles (fixed_payload [article_with 1, article_with 1])
                       (efetch_params (example_args 3 None False) 0 3)))"
proof -
  have "find_all ''PubmedArticle'' (Tag ''PubmedArticleSet'' [article_with 1, article_with 1])
        = [article_with 1, article_with 1]"
    by (rule find_all_articles) (simp add: find_all_article_with)
  then show ?thesis
    using example_full_run [of "[article_with 1, article_with 1]" 3]
    by (simp add: find_all_article_with payload_articles_def)
qed

text \<open>A total of 1 and an endpoint that sends what it is asked for: one window, completed.\<close>

theorem progress_moves_by_requested_size_witness:
  "counting_payload (article_with 1) efetch_url (efetch_params (example_args 1 None False) 0 1)
     = Inr (Tag ''PubmedArticleSet'' [article_with 1]) \<and>
   fetch_articles_in_batches (example_args 1 None False) (counting_payload (article_with 1))
     = Returned \<lparr>article_data = article_rows (article_with 1), record_count = 1, pbar_n = 1,
          requests = [efetch_params (example_args 1 None False) 0 1],
          stdout = [Found_unique_articles 1]\<rparr> \<and>
   0 < batch_size (example_args 1 None False) \<and>
   0 \<le> total_records (example_args 1 None False) \<and>
   record_limit (example_args 1 None False) = None \<and>
   sorted (map pbar_n (fetch_trace (example_args 1 None False)
                         (counting_payload (article_with 1))))"
proof -
  let ?a = "example_args 1 None False"
  let ?g = "counting_payload (article_with 1)"
  let ?s1 = "(initial_state ?a)\<lparr>requests := requests (initial_state ?a) @ [efetch_params ?a 0 1]\<rparr>"
  have target: "total_to_retrieve ?a = 1"
    by (simp add: total_to_retrieve_def)
  have answer: "?g efetch_url (efetch_params ?a 0 1) = Inr (Tag ''PubmedArticleSet'' [article_with 1])"
    by (simp add: counting_payload_answers)
  have articles: "find_all ''PubmedArticle'' (Tag ''PubmedArticleSet'' [article_with 1])
                  = [article_with 1]"
    by (rule find_all_articles) (simp add: find_all_article_with)
  have loop: "process_articles ?a [article_with 1] ?s1 = Exhausted (processed (article_with 1) ?s1)"
    by (simp add: process_articles_step preview_reached_def limit_reached_def)
  have "fetch_articles_in_batches ?a ?g = batches ?a ?g [0] (initial_state ?a)"
    by (intro one_window) (simp_all add: target)
  also have "\<dots> = batches ?a ?g [] ((processed (article_with 1) ?s1)\<lparr>pbar_n := 0 + 1\<rparr>)"
    using progress_moves_by_requested_size [of ?g ?a, THEN conjunct1, rule_format,
        where r = 0 and rest = "[]" and s = "initial_state ?a"
          and soup = "Tag ''PubmedArticleSet'' [article_with 1]"
          and t = "processed (article_with 1) ?s1"]
      answer articles loop
    by (simp add: target)
  finally have run: "fetch_articles_in_batches ?a ?g
     = Returned \<lparr>article_data = article_rows (article_with 1), record_count = 1, pbar_n = 1,
          requests = [efetch_params ?a 0 1], stdout = [Found_unique_articles 1]\<rparr>"
    by (simp add: processed_def) (simp add: initial_state_def)
  have "sorted (map pbar_n (fetch_trace ?a ?g))"
    using progress_moves_by_requested_size [of ?g ?a] counting_exact [of 1 ?a] by simp
  with answer run show ?thesis by simp
qed


section \<open>The preview cap of a dry-run\<close>


lemma preview_bound_loop:
  assumes "dry_run a"
  shows "\<forall>x \<in> set xs. length (find_all ''Author'' x) \<le> m \<Longrightarrow>
         length (article_data s) < 10 + m \<Longrightarrow>
         t \<in> set (process_articles_trace a xs s) \<Longrightarrow> length (article_data t) < 10 + m"
proof (induction xs arbitrary: s)
  case Nil
  then show ?case by simp
next
  case (Cons x xs)
  show ?case
  proof (cases "preview_reached a s \<or> limit_reached a s")
    case True
    with Cons.prems show ?thesis
      by (auto simp: process_articles_trace_step split: if_splits)
  next
    case False
    with assms have "length (article_data s) < 10" by (simp add: preview_reached_def)
    with Cons.prems(1) have below: "length (article_data (processed x s)) < 10 + m"
      by (simp add: length_article_rows)
    from False Cons.prems(3)
    have "t = processed x s \<or> t \<in> set (process_articles_trace a xs (processed x s))"
      by (simp add: process_articles_trace_step)
    with below Cons.IH [OF _ below] Cons.prems(1) show ?thesis by auto
  qed
qed

lemma window_authors:
  assumes "\<forall>params soup. g efetch_url params = Inr soup \<longrightarrow>
             (\<forall>x \<in> set (find_all ''PubmedArticle'' soup). length (find_all ''Author'' x) \<le> m)"
  shows "\<forall>x \<in> set (window_articles a g r s). length (find_all ''Author'' x) \<le> m"
proof (cases "g efetch_url (efetch_params a r (current_batch_size a s))")
  case (Inl e)
  then show ?thesis by (simp add: window_articles_def payload_articles_def)
next
  case (Inr soup)
  with assms show ?thesis by (simp add: window_articles_def payload_articles_def)
qed

lemma preview_bound_trace:
  assumes dry: "dry_run a"
    and authors: "\<forall>params soup. g efetch_url params = Inr soup \<longrightarrow>
             (\<forall>x \<in> set (find_all ''PubmedArticle'' soup). length (find_all ''Author'' x) \<le> m)"
  shows "\<forall>t \<in> set (fetch_trace a g). length (article_data t) < 10 + m"
proof -
  let ?P = "\<lambda>t::retrieval_state. length (article_data t) < 10 + m"
  have inside: "?P t"
    if "?P s" and "t = request_sent a r s \<or>
       t \<in> set (process_articles_trace a (window_articles a g r s) (request_sent a r s))"
    for r s t
  proof -
    have "\<forall>x \<in> set (window_articles a g r s). length (find_all ''Author'' x) \<le> m"
      using authors by (rule window_authors)
    from preview_bound_loop [OF dry this, of "request_sent a r s" t] that show ?thesis by auto
  qed
  have "\<forall>t \<in> set (batches_trace a g offs (initial_state a)). ?P t" for offs
  proof (rule batches_trace_invariant [where I = "\<lambda>offs. ?P"])
    show "?P (initial_state a)" by simp
  next
    fix r rest s t
    assume "?P s" and "t = request_sent a r s \<or>
       t \<in> set (process_articles_trace a (window_articles a g r s) (request_sent a r s))"
    then show "?P t" by (rule inside)
  next
    fix r rest s t
    assume "?P s"
      and "process_articles a (window_articles a g r s) (request_sent a r s) = Exhausted t"
    then have "?P t"
      using inside [of s t r]
        process_articles_Exhausted_in_trace [of a "window_articles a g r s" "request_sent a r s" t]
      by auto
    then show "?P (bar_moved (current_batch_size a s) t) \<and> ?P (bar_moved (current_batch_size a s) t)"
      by simp
  qed
  then show ?thesis by (auto elim!: in_fetch_trace)
qed

lemma begun_loop:
  assumes "dry_run a"
  shows "t \<in> set (process_articles_trace a xs s) \<Longrightarrow>
         \<exists>k\<le>length xs. advanced xs k s t \<and>
           (1 \<le> k \<longrightarrow> length (article_data s @ concat (map article_rows (take (k - 1) xs))) < 10)"
proof (induction xs arbitrary: s)
  case Nil
  then show ?case by simp
next
  case (Cons x xs)
  let ?goal = "\<lambda>k. k \<le> length (x # xs) \<and> advanced (x # xs) k s t \<and>
     (1 \<le> k \<longrightarrow> length (article_data s @ concat (map article_rows (take (k - 1) (x # xs)))) < 10)"
  show ?case
  proof (cases "preview_reached a s \<or> limit_reached a s")
    case True
    with Cons.prems
    have "t = s\<lparr>stdout := stdout s @ [Dry_run_processed (length (article_data s))]\<rparr>"
      by (auto simp: process_articles_trace_step split: if_splits)
    then have "?goal 0" by (simp add: advanced_print)
    then show ?thesis by blast
  next
    case False
    with assms have below: "length (article_data s) < 10" by (simp add: preview_reached_def)
    from False Cons.prems
    consider "t = processed x s" | "t \<in> set (process_articles_trace a xs (processed x s))"
      by (auto simp: process_articles_trace_step)
    then show ?thesis
    proof cases
      case 1
      have "advanced xs 0 (processed x s) (processed x s)" by (rule advanced_refl)
      then have "advanced (x # xs) (Suc 0) s t" unfolding 1 by (rule advanced_step)
      with below have "?goal (Suc 0)" by simp
      then show ?thesis by blast
    next
      case 2
      then obtain k where k: "k \<le> length xs" "advanced xs k (processed x s) t"
        and prev: "1 \<le> k \<longrightarrow> length (article_data (processed x s)
                      @ concat (map article_rows (take (k - 1) xs))) < 10"
        using Cons.IH by blast
      have "length (article_data s @ concat (map article_rows (take (Suc k - 1) (x # xs)))) < 10"
      proof (cases k)
        case 0
        with below show ?thesis by simp
      next
        case (Suc j)
        with prev show ?thesis by simp
      qed
      with k have "?goal (Suc k)" by (simp add: advanced_step)
      then show ?thesis by blast
    qed
  qed
qed

lemma begun_advanced:
  assumes all: "all_processed g s" and begun: "begun_below_cap g s"
    and k: "k \<le> length (window_articles a g r s)"
    and adv: "advanced (window_articles a g r s) k (request_sent a r s) t"
    and prev: "1 \<le> k \<longrightarrow> length (article_data (request_sent a r s)
                 @ concat (map article_rows (take (k - 1) (window_articles a g r s)))) < 10"
  shows "begun_below_cap g t"
proof -
  let ?xs = "window_articles a g r s"
  let ?f = "fetched_articles g s"
  from adv have req: "requests t = requests (request_sent a r s)"
    and rc: "record_count t = record_count s + int k"
    by (simp_all add: advanced_def)
  have f: "fetched_articles g t = ?f @ ?xs"
    using fetched_same_requests [OF req] by (simp add: fetched_request_sent)
  from all have len: "record_count s = int (length ?f)"
    and data: "article_data s = concat (map article_rows ?f)"
    by (simp_all add: all_processed_def)
  show ?thesis
  proof (cases k)
    case 0
    with rc len have "nat (record_count t) - 1 \<le> length ?f" by simp
    then have "take (nat (record_count t) - 1) (fetched_articles g t)
               = take (nat (record_count s) - 1) ?f"
      using rc 0 by (simp add: f)
    with begun rc 0 show ?thesis by (simp add: begun_below_cap_def)
  next
    case (Suc j)
    with rc len have "nat (record_count t) - 1 = length ?f + j" by simp
    then have "take (nat (record_count t) - 1) (fetched_articles g t) = ?f @ take j ?xs"
      by (simp add: f)
    with prev Suc data show ?thesis by (simp add: begun_below_cap_def)
  qed
qed

lemma begun_trace:
  assumes dry: "dry_run a"
  shows "\<forall>t \<in> set (fetch_trace a g). begun_below_cap g t"
proof -
  let ?I = "\<lambda>(offs::int list) s. all_processed g s \<and> begun_below_cap g s"
  have start: "?I offs (initial_state a)" for offs
    by (simp add: all_processed_initial begun_below_cap_def)
  have inside: "begun_below_cap g t"
    if I: "all_processed g s \<and> begun_below_cap g s" and t: "t = request_sent a r s \<or>
       t \<in> set (process_articles_trace a (window_articles a g r s) (request_sent a r s))"
    for r s t
  proof -
    from t obtain k where "k \<le> length (window_articles a g r s)"
      "advanced (window_articles a g r s) k (request_sent a r s) t"
      "1 \<le> k \<longrightarrow> length (article_data (request_sent a r s)
                 @ concat (map article_rows (take (k - 1) (window_articles a g r s)))) < 10"
      using begun_loop [OF dry, of t "window_articles a g r s" "request_sent a r s"]
        advanced_refl [of "window_articles a g r s" "request_sent a r s"]
      by (metis le0 not_one_le_zero)
    with I show ?thesis using begun_advanced by blast
  qed
  have "\<forall>t \<in> set (batches_trace a g offs (initial_state a)). begun_below_cap g t" for offs
  proof (rule batches_trace_invariant [where I = ?I])
    show "?I offs (initial_state a)" by (rule start)
  next
    fix r rest s t
    assume "?I (r # rest) s" and "t = request_sent a r s \<or>
       t \<in> set (process_articles_trace a (window_articles a g r s) (request_sent a r s))"
    then show "begun_below_cap g t" by (rule inside)
  next
    fix r rest s t
    assume I: "?I (r # rest) s"
      and ex: "process_articles a (window_articles a g r s) (request_sent a r s) = Exhausted t"
    then have "begun_below_cap g t"
      using inside [of s t r]
        process_articles_Exhausted_in_trace [of a "window_articles a g r s" "request_sent a r s" t]
      by auto
    then have "begun_below_cap g (bar_moved (current_batch_size a s) t)"
      by (simp add: begun_below_cap_def fetched_articles_def)
    moreover from I ex have "all_processed g (bar_moved (current_batch_size a s) t)"
      using all_processed_Exhausted by blast
    ultimately show "?I rest (bar_moved (current_batch_size a s) t) \<and>
               begun_below_cap g (bar_moved (current_batch_size a s) t)"
      by simp
  qed
  with start show ?thesis by (auto elim!: in_fetch_trace)
qed


lemma begun_window:
  assumes dry: "dry_run a" and all: "all_processed g s" and begun: "begun_below_cap g s"
    and t: "t = request_sent a r s \<or>
       t \<in> set (process_articles_trace a (window_articles a g r s) (request_sent a r s))"
  shows "begun_below_cap g t"
proof -
  from t obtain k where "k \<le> length (window_articles a g r s)"
    "advanced (window_articles a g r s) k (request_sent a r s) t"
    "1 \<le> k \<longrightarrow> length (article_data (request_sent a r s)
               @ concat (map article_rows (take (k - 1) (window_articles a g r s)))) < 10"
    using begun_loop [OF dry, of t "window_articles a g r s" "request_sent a r s"]
      advanced_refl [of "window_articles a g r s" "request_sent a r s"]
    by (metis le0 not_one_le_zero)
  with all begun show ?thesis using begun_advanced by blast
qed

lemma begun_Exhausted:
  assumes dry: "dry_run a" and all: "all_processed g s" and begun: "begun_below_cap g s"
    and ex: "process_articles a (window_articles a g r s) (request_sent a r s) = Exhausted t"
  shows "begun_below_cap g (bar_moved n t)"
proof -
  from process_articles_Exhausted_in_trace [OF ex]
  have "begun_below_cap g t" using begun_window [OF dry all begun] by blast
  then show ?thesis by (simp add: begun_below_cap_def fetched_articles_def)
qed

lemma target_le_total: "total_to_retrieve a \<le> total_records a"
  by (simp add: total_to_retrieve_def split: option.splits)

lemma serve_window:
  assumes bs: "0 < batch_size a" and serves: "serves a g rs"
    and total: "total_records a = int (length rs)"
    and I: "in_order a g rs (r # rest) s"
  shows "0 \<le> r" and "record_count s = r" and "0 < current_batch_size a s"
    and "rest = range_up (r + batch_size a) (total_to_retrieve a) (batch_size a)"
    and "r + current_batch_size a s = min (r + batch_size a) (total_to_retrieve a)"
    and "r + current_batch_size a s \<le> int (length rs)"
    and "window_articles a g r s = take (nat (current_batch_size a s)) (drop (nat r) rs)"
    and "\<exists>soup. g efetch_url (efetch_params a r (current_batch_size a s)) = Inr soup"
    and "fetched_articles g s = take (nat r) rs"
    and "all_processed g s" and "begun_below_cap g s"
    and "int (length (window_articles a g r s)) = current_batch_size a s"
proof -
  from I obtain r0 where r0: "0 \<le> r0"
    and offs: "r # rest = range_up r0 (total_to_retrieve a) (batch_size a)"
    and rc0: "record_count s = min r0 (total_to_retrieve a)"
    and fetched: "fetched_articles g s = take (nat (record_count s)) rs"
    and rest_I: "all_processed g s" "begun_below_cap g s"
    unfolding in_order_def by blast
  from offs have r: "r = r0" "r < total_to_retrieve a"
    and rest: "rest = range_up (r + batch_size a) (total_to_retrieve a) (batch_size a)"
    using range_up_ConsD [of r0 "total_to_retrieve a" "batch_size a" r rest] by simp_all
  with rc0 have rc: "record_count s = r" by simp
  with r bs have cbs: "0 < current_batch_size a s"
    "r + current_batch_size a s = min (r + batch_size a) (total_to_retrieve a)"
    by (simp_all add: current_batch_size_def)
  from cbs(2) target_le_total [of a] total
  have within: "r + current_batch_size a s \<le> int (length rs)" by simp
  from serves r0 r cbs(1) obtain soup where
    answer: "g efetch_url (efetch_params a r (current_batch_size a s)) = Inr soup"
    and "find_all ''PubmedArticle'' soup = take (nat (current_batch_size a s)) (drop (nat r) rs)"
    unfolding serves_def by (metis less_imp_le)
  then have window: "window_articles a g r s
                     = take (nat (current_batch_size a s)) (drop (nat r) rs)"
    by (simp add: window_articles_def payload_articles_def)
  from r0 r cbs(1) within have "nat (current_batch_size a s) \<le> length rs - nat r"
    by linarith
  with cbs(1) have len: "int (length (window_articles a g r s)) = current_batch_size a s"
    by (simp add: window)
  from r0 r rc cbs rest within window answer fetched rest_I len
  show "0 \<le> r" and "record_count s = r" and "0 < current_batch_size a s"
    and "rest = range_up (r + batch_size a) (total_to_retrieve a) (batch_size a)"
    and "r + current_batch_size a s = min (r + batch_size a) (total_to_retrieve a)"
    and "r + current_batch_size a s \<le> int (length rs)"
    and "window_articles a g r s = take (nat (current_batch_size a s)) (drop (nat r) rs)"
    and "\<exists>soup. g efetch_url (efetch_params a r (current_batch_size a s)) = Inr soup"
    and "fetched_articles g s = take (nat r) rs"
    and "all_processed g s" and "begun_below_cap g s"
    and "int (length (window_articles a g r s)) = current_batch_size a s"
    by simp_all
qed

lemma serve_boundary:
  assumes dry: "dry_run a" and bs: "0 < batch_size a" and serves: "serves a g rs"
    and total: "total_records a = int (length rs)"
    and I: "in_order a g rs (r # rest) s"
    and ex: "process_articles a (window_articles a g r s) (request_sent a r s) = Exhausted t"
  shows "in_order a g rs rest (bar_moved (current_batch_size a s) t)"
proof -
  let ?n = "current_batch_size a s"
  let ?t = "bar_moved ?n t"
  note w = serve_window [OF bs serves total I]
  note len = w(12)
  with process_articles_Exhausted_frame(4) [OF ex] w(2)
  have rc: "record_count ?t = r + ?n" by simp
  have "requests ?t = requests (request_sent a r s)"
    using process_articles_Exhausted_frame(1) [OF ex] by simp
  then have "fetched_articles g ?t = fetched_articles g s @ window_articles a g r s"
    using fetched_same_requests fetched_request_sent by metis
  also have "\<dots> = take (nat r) rs @ take (nat ?n) (drop (nat r) rs)"
    by (simp only: w(7,9))
  also have "\<dots> = take (nat r + nat ?n) rs" by (simp add: take_add)
  also from w(1,3) have "nat r + nat ?n = nat (r + ?n)" by (simp add: nat_add_distrib)
  finally have fetched: "fetched_articles g ?t = take (nat (record_count ?t)) rs"
    by (simp only: rc)
  from w(10) ex have "all_processed g ?t" by (rule all_processed_Exhausted)
  moreover from dry w(10,11) ex have "begun_below_cap g ?t" by (rule begun_Exhausted)
  moreover from w(1,3) bs have "0 \<le> r + batch_size a" by simp
  ultimately show ?thesis
    unfolding in_order_def using w(4,5) rc fetched
    by (intro exI [of _ "r + batch_size a"]) simp
qed

lemma serve_run:
  assumes dry: "dry_run a" and bs: "0 < batch_size a" and serves: "serves a g rs"
    and total: "total_records a = int (length rs)"
    and rows: "10 \<le> length (concat (map article_rows (butlast rs)))"
    and start: "in_order a g rs offs s"
  shows "\<exists>s'. batches a g offs s = Returned s' \<and> record_count s' < total_records a"
proof (rule batches_outcome [where I = "in_order a g rs"
      and Q = "\<lambda>out. \<exists>s'. out = Returned s' \<and> record_count s' < total_records a"])
  show "in_order a g rs offs s" by (rule start)
next
  fix r rest s t
  assume "in_order a g rs (r # rest) s"
    and "process_articles a (window_articles a g r s) (request_sent a r s) = Exhausted t"
  with dry bs serves total show "in_order a g rs rest (bar_moved (current_batch_size a s) t)"
    by (rule serve_boundary)
next
  fix r rest s e
  assume I: "in_order a g rs (r # rest) s"
    and "g efetch_url (efetch_params a r (current_batch_size a s)) = Inl e"
  with serve_window(8) [OF bs serves total I]
  show "\<exists>s'. Raised e (request_sent a r s) = Returned s' \<and> record_count s' < total_records a"
    by simp
next
  fix r rest s t
  assume I: "in_order a g rs (r # rest) s"
    and "process_articles a (window_articles a g r s) (request_sent a r s) = Return t"
  then obtain k where k: "k < length (window_articles a g r s)"
    and "advanced (window_articles a g r s) k (request_sent a r s) t"
    using process_articles_Return by blast
  then have rc: "record_count t = record_count s + int k" by (simp add: advanced_def)
  note w = serve_window [OF bs serves total I]
  with k rc w(2,6,12) total have "record_count t < total_records a" by simp
  then show "\<exists>s'. Returned t = Returned s' \<and> record_count s' < total_records a" by simp
next
  fix s
  assume "in_order a g rs [] s"
  then obtain r where "[] = range_up r (total_to_retrieve a) (batch_size a)"
    and rc: "record_count s = min r (total_to_retrieve a)"
    and fetched: "fetched_articles g s = take (nat (record_count s)) rs"
    and begun: "begun_below_cap g s"
    unfolding in_order_def by blast
  with range_up_NilD [of r "total_to_retrieve a" "batch_size a"] bs
  have at_target: "record_count s = total_to_retrieve a" by simp
  have "record_count s \<noteq> total_records a"
  proof
    assume all: "record_count s = total_records a"
    from rows have "rs \<noteq> []" by auto
    with all total have "1 \<le> record_count s" by (cases rs) simp_all
    with begun have "length (concat (map article_rows
                  (take (nat (record_count s) - 1) (fetched_articles g s)))) < 10"
      by (simp add: begun_below_cap_def)
    moreover from all total fetched
    have "take (nat (record_count s) - 1) (fetched_articles g s) = butlast rs"
      by (simp add: butlast_conv_take)
    ultimately show False using rows by simp
  qed
  with at_target target_le_total [of a] have "record_count s < total_records a" by simp
  then show "\<exists>s'. Returned s = Returned s' \<and> record_count s' < total_records a" by simp
qed


lemma in_order_initial:
  assumes "0 \<le> total_to_retrieve a"
  shows "in_order a g rs (range_up 0 (total_to_retrieve a) (batch_size a)) (initial_state a)"
  unfolding in_order_def using assms
  by (intro exI [of _ 0])
     (simp add: all_processed_initial begun_below_cap_def fetched_articles_def)

text \<open>
  C1, as the code has it. In dry-run the cap is tested before each article and never
  inside one. So (1) when no fetched article has more than \<open>m\<close> authors, the accumulated
  rows stay below \<open>10 + m\<close> at every point (at most 10 when every article has at most one
  author); (2) at every point, the articles processed before the last processed one gave
  fewer than 10 rows together; (3) against an endpoint that serves a result set of
  \<open>total_records\<close> articles in order, with a positive batch size, the call returns with
  fewer than \<open>total_records\<close> articles processed whenever the articles of the result set
  before its last one give 10 rows or more.
\<close>

theorem dry_run_preview_cap:
  assumes "dry_run a"
  shows "(\<forall>m. (\<forall>params soup. g efetch_url params = Inr soup \<longrightarrow>
                 (\<forall>x \<in> set (find_all ''PubmedArticle'' soup).
                    length (find_all ''Author'' x) \<le> m))
              \<longrightarrow> (\<forall>t \<in> set (fetch_trace a g). length (article_data t) < 10 + m)) \<and>
         (\<forall>t \<in> set (fetch_trace a g).
            1 \<le> record_count t \<longrightarrow>
            length (concat (map article_rows
                      (take (nat (record_count t) - 1) (fetched_articles g t)))) < 10) \<and>
         (\<forall>rs. 0 < batch_size a \<and> total_records a = int (length rs) \<and> serves a g rs \<and>
               10 \<le> length (concat (map article_rows (butlast rs)))
               \<longrightarrow> (\<exists>s. fetch_articles_in_batches a g = Returned s \<and>
                        record_count s < total_records a))"
proof (intro conjI allI impI ballI)
  fix m t
  assume "\<forall>params soup. g efetch_url params = Inr soup \<longrightarrow>
             (\<forall>x \<in> set (find_all ''PubmedArticle'' soup). length (find_all ''Author'' x) \<le> m)"
    and "t \<in> set (fetch_trace a g)"
  with preview_bound_trace [OF assms, where g = g and m = m]
  show "length (article_data t) < 10 + m" by blast
next
  fix t
  assume "t \<in> set (fetch_trace a g)" and "1 \<le> record_count t"
  with begun_trace [OF assms, of g]
  show "length (concat (map article_rows
                      (take (nat (record_count t) - 1) (fetched_articles g t)))) < 10"
    by (simp add: begun_below_cap_def)
next
  fix rs
  assume hyps: "0 < batch_size a \<and> total_records a = int (length rs) \<and> serves a g rs \<and>
               10 \<le> length (concat (map article_rows (butlast rs)))"
  then have bs: "0 < batch_size a" and total: "total_records a = int (length rs)"
    and serves: "serves a g rs"
    and rows: "10 \<le> length (concat (map article_rows (butlast rs)))"
    by simp_all
  have run: "fetch_articles_in_batches a g
             = batches a g (range_up 0 (total_to_retrieve a) (batch_size a)) (initial_state a)"
    using bs by (simp add: fetch_articles_in_batches_def py_range_def)
  show "\<exists>s. fetch_articles_in_batches a g = Returned s \<and> record_count s < total_records a"
  proof (cases "0 \<le> total_to_retrieve a")
    case True
    then have "in_order a g rs (range_up 0 (total_to_retrieve a) (batch_size a)) (initial_state a)"
      by (rule in_order_initial)
    with assms bs serves total rows show ?thesis unfolding run by (rule serve_run)
  next
    case False
    then have "range_up 0 (total_to_retrieve a) (batch_size a) = []"
      by (simp add: range_up_Nil)
    moreover from rows total have "0 < total_records a" by (cases rs) simp_all
    ultimately show ?thesis by (simp add: run)
  qed
qed

text \<open>
  C1 as stated fails: in dry-run, one article with eleven authors is processed in full
  and eleven rows are returned.
\<close>

theorem dry_run_eleven_rows:
  "dry_run (example_args 1 None True) \<and>
   fetch_articles_in_batches (example_args 1 None True) (fixed_payload [article_with 11])
   = Returned \<lparr>article_data = article_rows (article_with 11), record_count = 1, pbar_n = 1,
        requests = [efetch_params (example_args 1 None True) 0 1],
        stdout = [Found_unique_articles 1]\<rparr> \<and>
   length (article_rows (article_with 11)) = 11 \<and>
   \<not> length (article_data (final_state
         (fetch_articles_in_batches (example_args 1 None True)
            (fixed_payload [article_with 11])))) \<le> 10"
  by (simp add: example_single_run)

lemma serving_payload_serves:
  assumes "\<forall>x \<in> set rs. named ''PubmedArticle'' x \<and> find_all ''PubmedArticle'' x = []"
  shows "serves a (serving_payload rs) rs"
proof -
  have "find_all ''PubmedArticle'' (Tag ''PubmedArticleSet'' (take n (drop r rs)))
        = take n (drop r rs)" for n r
    using assms by (intro find_all_articles) (auto dest: in_set_takeD in_set_dropD)
  then show ?thesis
    by (simp add: serves_def serving_payload_def efetch_params_def)
qed

lemma serving_payload_authors:
  assumes "\<forall>x \<in> set rs. named ''PubmedArticle'' x \<and> find_all ''PubmedArticle'' x = []
             \<and> length (find_all ''Author'' x) \<le> m"
  shows "\<forall>params soup. serving_payload rs efetch_url params = Inr soup \<longrightarrow>
           (\<forall>x \<in> set (find_all ''PubmedArticle'' soup). length (find_all ''Author'' x) \<le> m)"
proof (intro allI impI)
  fix params soup
  assume "serving_payload rs efetch_url params = Inr soup"
  then obtain n r where soup: "soup = Tag ''PubmedArticleSet'' (take n (drop r rs))"
    by (auto simp: serving_payload_def split: option.splits pyval.splits)
  have "find_all ''PubmedArticle'' soup = take n (drop r rs)"
    unfolding soup using assms
    by (intro find_all_articles) (auto dest: in_set_takeD in_set_dropD)
  with assms show "\<forall>x \<in> set (find_all ''PubmedArticle'' soup). length (find_all ''Author'' x) \<le> m"
    by (auto dest: in_set_takeD in_set_dropD)
qed

text \<open>A result set of two articles, the first with ten authors: the second is never processed.\<close>

theorem dry_run_preview_cap_witness:
  "dry_run (example_args 2 None True) \<and>
   0 < batch_size (example_args 2 None True) \<and>
   total_records (example_args 2 None True) = int (length [article_with 10, article_with 1]) \<and>
   10 \<le> length (concat (map article_rows (butlast [article_with 10, article_with 1]))) \<and>
   returned_rows (fetch_articles_in_batches (example_args 2 None True)
                    (serving_payload [article_with 10, article_with 1])) \<noteq> None \<and>
   record_count (final_state (fetch_articles_in_batches (example_args 2 None True)
                    (serving_payload [article_with 10, article_with 1]))) < 2 \<and>
   length (article_data (final_state (fetch_articles_in_batches (example_args 2 None True)
                    (serving_payload [article_with 10, article_with 1])))) < 10 + 10"
proof -
  let ?a = "example_args 2 None True"
  let ?rs = "[article_with 10, article_with 1]"
  let ?g = "serving_payload ?rs"
  have serves: "serves ?a ?g ?rs"
    by (rule serving_payload_serves) (simp add: find_all_article_with)
  have authors: "\<forall>params soup. ?g efetch_url params = Inr soup \<longrightarrow>
           (\<forall>x \<in> set (find_all ''PubmedArticle'' soup). length (find_all ''Author'' x) \<le> 10)"
    by (rule serving_payload_authors) (simp add: find_all_article_with)
  have dry: "dry_run ?a" by simp
  note cap = dry_run_preview_cap [OF dry, of ?g]
  from cap [THEN conjunct2, THEN conjunct2, rule_format, of ?rs] serves
  have "\<exists>s. fetch_articles_in_batches ?a ?g = Returned s \<and> record_count s < 2"
    by simp
  moreover from cap [THEN conjunct1, THEN spec, of 10, THEN mp, OF authors]
    final_state_in_trace [of ?a ?g]
  have "length (article_data (final_state (fetch_articles_in_batches ?a ?g))) < 10 + 10"
    by blast
  ultimately show ?thesis by auto
qed


end
